theory Spec2Isabelle
  imports Main "HOL-Library.Word" "HOL-Library.AList"
begin

section \<open>JavaScript values used by the core\<close>

text \<open>
  A JavaScript string is a sequence of 16-bit code units; equality of strings (the
  \<^verbatim>\<open>===\<close> of the engine, the key comparison of \<^verbatim>\<open>Set.has\<close> and of property
  lookup) is equality of these sequences. A literal of the source is written
  \<open>lit ''user.read''\<close>.
\<close>

type_synonym codeunit = "16 word"
type_synonym jsstring = "codeunit list"

definition lit :: "string \<Rightarrow> jsstring" where
  "lit s = map of_char s"

text \<open>
  \<^verbatim>\<open>String.prototype.trim\<close> removes WhiteSpace and LineTerminator code points from both
  ends (ECMAScript, TrimString): TAB, LF, VT, FF, CR, SP, NBSP, the Unicode space
  separators, LS, PS and ZWNBSP. All of them are single code units.
\<close>

definition isWhiteSpace :: "codeunit \<Rightarrow> bool" where
  "isWhiteSpace c =
     (c = 0x0009 \<or> c = 0x000A \<or> c = 0x000B \<or> c = 0x000C \<or> c = 0x000D \<or> c = 0x0020 \<or>
      c = 0x00A0 \<or> c = 0x1680 \<or> (0x2000 \<le> c \<and> c \<le> 0x200A) \<or> c = 0x2028 \<or>
      c = 0x2029 \<or> c = 0x202F \<or> c = 0x205F \<or> c = 0x3000 \<or> c = 0xFEFF)"

definition trim :: "jsstring \<Rightarrow> jsstring" where
  "trim s = rev (dropWhile isWhiteSpace (rev (dropWhile isWhiteSpace s)))"

text \<open>
  \<^verbatim>\<open>s.split(sep)\<close> for a one-unit separator: the pieces between the separators, in
  order; the empty string gives one empty piece. The result is never empty, so the last
  branch of the \<open>case\<close> is not reached.
\<close>

fun split_js :: "codeunit \<Rightarrow> jsstring \<Rightarrow> jsstring list" where
  "split_js sep [] = [[]]"
| "split_js sep (c # cs) =
     (if c = sep then [] # split_js sep cs
      else (case split_js sep cs of
              p # ps \<Rightarrow> (c # p) # ps
            | [] \<Rightarrow> [[c]]))"

text \<open>
  The string iterator (\<^verbatim>\<open>for (const x of "...")\<close>) yields code points: a high surrogate
  followed by a low surrogate is one element of two units, every other unit is an
  element of its own.
\<close>

definition isHighSurrogate :: "codeunit \<Rightarrow> bool" where
  "isHighSurrogate c = (0xD800 \<le> c \<and> c \<le> 0xDBFF)"

definition isLowSurrogate :: "codeunit \<Rightarrow> bool" where
  "isLowSurrogate c = (0xDC00 \<le> c \<and> c \<le> 0xDFFF)"

fun codePoints :: "jsstring \<Rightarrow> jsstring list" where
  "codePoints [] = []"
| "codePoints [c] = [[c]]"
| "codePoints (c # d # r) =
     (if isHighSurrogate c \<and> isLowSurrogate d then [c, d] # codePoints r
      else [c] # codePoints (d # r))"

text \<open>
  The values a property read of the registry's backing object can produce. TypeScript's
  types are erased at run time, so \<^verbatim>\<open>getPermissions\<close> is modelled with the value it
  really returns, whatever its declared type says.
\<close>

datatype jsval =
    UndefinedVal
  | StringVal jsstring
  | NumberVal nat
  | FunctionVal
  | ObjectVal
  | ArrayVal "jsstring list"

datatype error = TypeError

text \<open>
  \<^verbatim>\<open>for (const x of v)\<close>: arrays and strings are iterable; \<^verbatim>\<open>undefined\<close>, numbers,
  functions and plain objects are not, and the loop throws a TypeError before its first
  round.
\<close>

fun iterate :: "jsval \<Rightarrow> error + jsstring list" where
  "iterate (ArrayVal xs) = Inr xs"
| "iterate (StringVal s) = Inr (codePoints s)"
| "iterate UndefinedVal = Inl TypeError"
| "iterate (NumberVal n) = Inl TypeError"
| "iterate FunctionVal = Inl TypeError"
| "iterate ObjectVal = Inl TypeError"

section \<open>Core types (core/types.ts)\<close>

text \<open>
  \<^verbatim>\<open>UserContext\<close>: every field is optional (\<open>None\<close> is \<^verbatim>\<open>undefined\<close>). The \<^verbatim>\<open>meta\<close>
  field is opaque to the core.
\<close>

record UserContext =
  userId :: "jsstring option"
  roles :: "jsstring list option"
  permissions :: "jsstring list option"
  meta :: "(jsstring \<times> jsval) list option"

text \<open>An argument of type \<^verbatim>\<open>T | null | undefined\<close>.\<close>

datatype 'a nullable = Null | Undefined | Defined 'a

record RoleRegistry =
  getPermissions :: "jsstring \<Rightarrow> jsval"
  hasRole :: "jsstring \<Rightarrow> bool"
  getRoleNames :: "jsstring list"

record PermissionCheckResult =
  allowed :: bool
  reason :: "jsstring option"

section \<open>Permission engine (core/permission-engine.ts)\<close>

definition WILDCARD_PERMISSION :: jsstring where
  "WILDCARD_PERMISSION = lit ''*''"

text \<open>
  \<^verbatim>\<open>collectUserPermissions\<close>. The \<^verbatim>\<open>Set<string>\<close> is only ever asked \<^verbatim>\<open>has\<close>, so it is
  a HOL set; \<open>addAll\<close> is the inner loop \<^verbatim>\<open>for (const permission of ...) permissions.add(permission)\<close>.
  \<open>collectRoles\<close> is the loop over \<^verbatim>\<open>user.roles\<close>: it stops with the TypeError of the
  inner \<^verbatim>\<open>for ... of\<close> when \<^verbatim>\<open>registry.getPermissions(role)\<close> is not iterable.
\<close>

definition addAll :: "jsstring set \<Rightarrow> jsstring list \<Rightarrow> jsstring set" where
  "addAll S ps = fold insert ps S"

fun collectRoles :: "RoleRegistry \<Rightarrow> jsstring set \<Rightarrow> jsstring list \<Rightarrow> error + jsstring set" where
  "collectRoles registry S [] = Inr S"
| "collectRoles registry S (role # rest) =
     (case iterate (getPermissions registry role) of
        Inl e \<Rightarrow> Inl e
      | Inr rolePermissions \<Rightarrow> collectRoles registry (addAll S rolePermissions) rest)"

definition collectUserPermissions :: "UserContext \<Rightarrow> RoleRegistry \<Rightarrow> error + jsstring set" where
  "collectUserPermissions user registry =
     (let S = (case permissions user of None \<Rightarrow> {} | Some ps \<Rightarrow> addAll {} ps)
      in case roles user of
           None \<Rightarrow> Inr S
         | Some rs \<Rightarrow> collectRoles registry S rs)"

text \<open>
  \<^verbatim>\<open>hasWildcardAccess\<close>. \<open>namespaceLoop\<close> is the \<^verbatim>\<open>for (let i = 0; i < parts.length - 1; i++)\<close>
  loop with its variable \<^verbatim>\<open>namespace\<close>; it runs over all parts but the last.
  \<^verbatim>\<open>parts[i]\<close> is always defined there. The code unit \<open>0x2E\<close> is the dot of
  \<^verbatim>\<open>requested.split(".")\<close>.
\<close>

fun namespaceLoop :: "jsstring set \<Rightarrow> jsstring \<Rightarrow> jsstring list \<Rightarrow> bool" where
  "namespaceLoop S namespace [] = False"
| "namespaceLoop S namespace (part # rest) =
     (let namespace' = (if namespace = [] then part else namespace @ lit ''.'' @ part)
      in if (namespace' @ lit ''.*'') \<in> S then True
         else namespaceLoop S namespace' rest)"

definition hasWildcardAccess :: "jsstring set \<Rightarrow> jsstring \<Rightarrow> bool" where
  "hasWildcardAccess S requested =
     (if WILDCARD_PERMISSION \<in> S then True
      else let parts = split_js 0x2E requested
           in namespaceLoop S [] (butlast parts))"

definition canUser :: "UserContext nullable \<Rightarrow> jsstring \<Rightarrow> RoleRegistry \<Rightarrow> error + bool" where
  "canUser user permission registry =
     (case user of
        Null \<Rightarrow> Inr False
      | Undefined \<Rightarrow> Inr False
      | Defined u \<Rightarrow>
          if permission = [] \<or> trim permission = [] then Inr False
          else (case collectUserPermissions u registry of
                  Inl e \<Rightarrow> Inl e
                | Inr userPermissions \<Rightarrow>
                    if permission \<in> userPermissions then Inr True
                    else if hasWildcardAccess userPermissions permission then Inr True
                    else Inr False))"

text \<open>\<^verbatim>\<open>canUserAll\<close> and \<^verbatim>\<open>canUserAny\<close>: the loops return at the first deciding element.\<close>

fun allLoop :: "UserContext nullable \<Rightarrow> RoleRegistry \<Rightarrow> jsstring list \<Rightarrow> error + bool" where
  "allLoop user registry [] = Inr True"
| "allLoop user registry (permission # rest) =
     (case canUser user permission registry of
        Inl e \<Rightarrow> Inl e
      | Inr b \<Rightarrow> if \<not> b then Inr False else allLoop user registry rest)"

definition canUserAll :: "UserContext nullable \<Rightarrow> jsstring list \<Rightarrow> RoleRegistry \<Rightarrow> error + bool" where
  "canUserAll user ps registry =
     (if length ps = 0 then Inr False else allLoop user registry ps)"

fun anyLoop :: "UserContext nullable \<Rightarrow> RoleRegistry \<Rightarrow> jsstring list \<Rightarrow> error + bool" where
  "anyLoop user registry [] = Inr False"
| "anyLoop user registry (permission # rest) =
     (case canUser user permission registry of
        Inl e \<Rightarrow> Inl e
      | Inr b \<Rightarrow> if b then Inr True else anyLoop user registry rest)"

definition canUserAny :: "UserContext nullable \<Rightarrow> jsstring list \<Rightarrow> RoleRegistry \<Rightarrow> error + bool" where
  "canUserAny user ps registry =
     (if length ps = 0 then Inr False else anyLoop user registry ps)"

definition checkPermission ::
  "UserContext nullable \<Rightarrow> jsstring \<Rightarrow> RoleRegistry \<Rightarrow> error + PermissionCheckResult" where
  "checkPermission user permission registry =
     (case user of
        Null \<Rightarrow> Inr \<lparr>allowed = False, reason = Some (lit ''No user context provided'')\<rparr>
      | Undefined \<Rightarrow> Inr \<lparr>allowed = False, reason = Some (lit ''No user context provided'')\<rparr>
      | Defined u \<Rightarrow>
          if permission = [] \<or> trim permission = [] then
            Inr \<lparr>allowed = False, reason = Some (lit ''Empty permission requested'')\<rparr>
          else (case canUser user permission registry of
                  Inl e \<Rightarrow> Inl e
                | Inr a \<Rightarrow>
                    Inr \<lparr>allowed = a,
                         reason = Some (if a
                           then lit ''Permission \"'' @ permission @ lit ''\" granted''
                           else lit ''Permission \"'' @ permission @ lit ''\" denied'')\<rparr>))"

section \<open>The object store\<close>

text \<open>
  \<^verbatim>\<open>defineRoles\<close> reads the caller's objects and builds objects of its own, and the
  caller may change its objects afterwards, so the objects live in a store. An address
  names an array of strings or a plain object whose property values are \<^verbatim>\<open>undefined\<close>
  (\<open>None\<close>) or array references (the shape of \<^verbatim>\<open>Record<string, readonly string[]>\<close>).
  The property list of an object is its list of own enumerable string keys in the order
  of \<^verbatim>\<open>Object.keys\<close>. Every address below \<open>lim\<close> is allocated; allocation takes
  \<open>lim\<close> and increments it.
\<close>

type_synonym addr = nat

text \<open>
  The internal prototype of a plain object: \<^verbatim>\<open>Object.prototype\<close>, or an array (whose own
  prototype is \<^verbatim>\<open>Array.prototype\<close>).
\<close>

datatype prototype = ObjectPrototype | ArrayInstance addr

datatype jsarray = JSArray (elems: "jsstring list") (arrayFrozen: bool)

datatype jsobject =
  JSObject (props: "(jsstring \<times> addr option) list") (proto: prototype) (objectFrozen: bool)

record heap =
  arrays :: "addr \<Rightarrow> jsarray"
  objects :: "addr \<Rightarrow> jsobject"
  lim :: addr

definition newArray :: "heap \<Rightarrow> jsarray \<Rightarrow> addr \<times> heap" where
  "newArray h x = (lim h, h\<lparr>arrays := (arrays h)(lim h := x), lim := Suc (lim h)\<rparr>)"

definition newObject :: "heap \<Rightarrow> jsobject \<Rightarrow> addr \<times> heap" where
  "newObject h x = (lim h, h\<lparr>objects := (objects h)(lim h := x), lim := Suc (lim h)\<rparr>)"

definition objectKeys :: "heap \<Rightarrow> addr \<Rightarrow> jsstring list" where
  "objectKeys h obj = map fst (props (objects h obj))"

definition hasOwnProperty :: "heap \<Rightarrow> addr \<Rightarrow> jsstring \<Rightarrow> bool" where
  "hasOwnProperty h obj k = (k \<in> set (map fst (props (objects h obj))))"

definition freezeObject :: "heap \<Rightarrow> addr \<Rightarrow> heap" where
  "freezeObject h obj =
     h\<lparr>objects := (objects h)
         (obj := JSObject (props (objects h obj)) (proto (objects h obj)) True)\<rparr>"

subsection \<open>The built-in prototypes\<close>

text \<open>
  The string-keyed properties of \<^verbatim>\<open>Object.prototype\<close> and \<^verbatim>\<open>Array.prototype\<close>
  (ECMAScript 2023 with Annex B). All of them are writable function-valued data
  properties, but \<^verbatim>\<open>__proto__\<close> on \<^verbatim>\<open>Object.prototype\<close>, which is an accessor, and
  \<^verbatim>\<open>length\<close> on \<^verbatim>\<open>Array.prototype\<close>, which an array instance always shadows.
\<close>

definition objectPrototypeKeys :: "jsstring list" where
  "objectPrototypeKeys =
     [lit ''constructor'', lit ''__defineGetter__'', lit ''__defineSetter__'',
      lit ''hasOwnProperty'', lit ''__lookupGetter__'', lit ''__lookupSetter__'',
      lit ''isPrototypeOf'', lit ''propertyIsEnumerable'', lit ''toString'',
      lit ''valueOf'', lit ''toLocaleString'']"

definition arrayPrototypeKeys :: "jsstring list" where
  "arrayPrototypeKeys =
     [lit ''constructor'', lit ''at'', lit ''concat'', lit ''copyWithin'', lit ''fill'',
      lit ''find'', lit ''findIndex'', lit ''findLast'', lit ''findLastIndex'',
      lit ''lastIndexOf'', lit ''pop'', lit ''push'', lit ''reverse'', lit ''shift'',
      lit ''unshift'', lit ''slice'', lit ''sort'', lit ''splice'', lit ''includes'',
      lit ''indexOf'', lit ''join'', lit ''keys'', lit ''entries'', lit ''values'',
      lit ''forEach'', lit ''filter'', lit ''flat'', lit ''flatMap'', lit ''map'',
      lit ''every'', lit ''some'', lit ''reduce'', lit ''reduceRight'',
      lit ''toLocaleString'', lit ''toString'', lit ''toReversed'', lit ''toSorted'',
      lit ''toSpliced'', lit ''with'']"

text \<open>
  The own index keys of an array are the canonical decimal numerals of the positions
  below its length.
\<close>

fun numberToString :: "nat \<Rightarrow> jsstring" where
  "numberToString n =
     (if n < 10 then [0x30 + of_nat n]
      else numberToString (n div 10) @ [0x30 + of_nat (n mod 10)])"

declare numberToString.simps [simp del]

definition arrayIndex :: "jsstring list \<Rightarrow> jsstring \<Rightarrow> nat option" where
  "arrayIndex xs k = List.find (\<lambda>i. numberToString i = k) [0..<length xs]"

subsection \<open>Property read and property write\<close>

text \<open>
  \<^verbatim>\<open>obj[k]\<close> walks the prototype chain. The getter of \<^verbatim>\<open>__proto__\<close> returns the
  receiver's prototype: \<^verbatim>\<open>Object.prototype\<close> itself (a plain object) or the array.
\<close>

definition objectPrototypeGet :: "heap \<Rightarrow> prototype \<Rightarrow> jsstring \<Rightarrow> jsval" where
  "objectPrototypeGet h receiverProto k =
     (if k = lit ''__proto__'' then
        (case receiverProto of
           ObjectPrototype \<Rightarrow> ObjectVal
         | ArrayInstance a \<Rightarrow> ArrayVal (elems (arrays h a)))
      else if k \<in> set objectPrototypeKeys then FunctionVal
      else UndefinedVal)"

definition arrayInstanceGet :: "heap \<Rightarrow> addr \<Rightarrow> jsstring \<Rightarrow> jsval" where
  "arrayInstanceGet h a k =
     (let xs = elems (arrays h a)
      in case arrayIndex xs k of
           Some i \<Rightarrow> StringVal (xs ! i)
         | None \<Rightarrow>
             if k = lit ''length'' then NumberVal (length xs)
             else if k \<in> set arrayPrototypeKeys then FunctionVal
             else objectPrototypeGet h (ArrayInstance a) k)"

definition getProperty :: "heap \<Rightarrow> addr \<Rightarrow> jsstring \<Rightarrow> jsval" where
  "getProperty h obj k =
     (case map_of (props (objects h obj)) k of
        Some (Some a) \<Rightarrow> ArrayVal (elems (arrays h a))
      | Some None \<Rightarrow> UndefinedVal
      | None \<Rightarrow>
          (case proto (objects h obj) of
             ObjectPrototype \<Rightarrow> objectPrototypeGet h ObjectPrototype k
           | ArrayInstance a \<Rightarrow> arrayInstanceGet h a k))"

text \<open>
  \<^verbatim>\<open>obj[k] = v\<close> in strict code (module code is strict), for an array reference \<open>v\<close>:
  \<^item> an own property is overwritten, unless the object is frozen;
  \<^item> a read-only property inherited from a frozen array prototype (an index or
    \<^verbatim>\<open>length\<close>) rejects the write;
  \<^item> \<^verbatim>\<open>__proto__\<close> reaches the setter on \<^verbatim>\<open>Object.prototype\<close>, which replaces the
    receiver's prototype and creates no own property;
  \<^item> any other key becomes a new own property, the last in key order.
  A rejected write throws a TypeError.
\<close>

definition inheritsReadOnly :: "heap \<Rightarrow> prototype \<Rightarrow> jsstring \<Rightarrow> bool" where
  "inheritsReadOnly h p k =
     (case p of
        ObjectPrototype \<Rightarrow> False
      | ArrayInstance a \<Rightarrow>
          arrayFrozen (arrays h a) \<and>
          (arrayIndex (elems (arrays h a)) k \<noteq> None \<or> k = lit ''length''))"

definition writeObject :: "heap \<Rightarrow> addr \<Rightarrow> jsobject \<Rightarrow> heap" where
  "writeObject h obj x = h\<lparr>objects := (objects h)(obj := x)\<rparr>"

definition setProperty :: "heap \<Rightarrow> addr \<Rightarrow> jsstring \<Rightarrow> addr \<Rightarrow> error + heap" where
  "setProperty h obj k v =
     (let ob = objects h obj
      in if k \<in> set (map fst (props ob)) then
           (if objectFrozen ob then Inl TypeError
            else Inr (writeObject h obj
                   (JSObject (AList.update k (Some v) (props ob)) (proto ob) False)))
         else if inheritsReadOnly h (proto ob) k then Inl TypeError
         else if k = lit ''__proto__'' then
           (if proto ob = ArrayInstance v then Inr h
            else if objectFrozen ob then Inl TypeError
            else Inr (writeObject h obj (JSObject (props ob) (ArrayInstance v) False)))
         else if objectFrozen ob then Inl TypeError
         else Inr (writeObject h obj
                (JSObject (props ob @ [(k, Some v)]) (proto ob) False)))"

section \<open>Role registry (core/role-registry.ts)\<close>

text \<open>
  \<^verbatim>\<open>definitions[role]\<close> for a key that \<^verbatim>\<open>Object.keys(definitions)\<close> has listed: the own
  property is found first, so the prototype of \<^verbatim>\<open>definitions\<close> is never asked.
\<close>

definition readOwn :: "jsobject \<Rightarrow> jsstring \<Rightarrow> addr option" where
  "readOwn ob k = (case map_of (props ob) k of Some v \<Rightarrow> v | None \<Rightarrow> None)"

text \<open>
  The loop of \<^verbatim>\<open>defineRoles\<close> over \<^verbatim>\<open>Object.keys(definitions)\<close>: an entry that is
  \<^verbatim>\<open>undefined\<close> is skipped; otherwise \<^verbatim>\<open>Object.freeze([...permissions])\<close> allocates a
  frozen copy of the caller's array and \<^verbatim>\<open>frozenDefinitions[role] = ...\<close> stores it.
\<close>

fun defineLoop :: "heap \<Rightarrow> addr \<Rightarrow> addr \<Rightarrow> jsstring list \<Rightarrow> error + heap" where
  "defineLoop h definitions frozenDefinitions [] = Inr h"
| "defineLoop h definitions frozenDefinitions (role # rest) =
     (case readOwn (objects h definitions) role of
        None \<Rightarrow> defineLoop h definitions frozenDefinitions rest
      | Some a \<Rightarrow>
          (let (copy, h1) = newArray h (JSArray (elems (arrays h a)) True)
           in case setProperty h1 frozenDefinitions role copy of
                Inl e \<Rightarrow> Inl e
              | Inr h2 \<Rightarrow> defineLoop h2 definitions frozenDefinitions rest))"

text \<open>
  \<^verbatim>\<open>defineRoles(definitions)\<close> returns the registry object, whose three methods close
  over \<^verbatim>\<open>frozenDefinitions\<close>: the model returns the address of \<^verbatim>\<open>frozenDefinitions\<close>
  and the new store, and \<open>registry h fd\<close> is the registry as it answers in the store
  \<open>h\<close>. \<^verbatim>\<open>getPermissions\<close> returns the property it read unless that is \<^verbatim>\<open>undefined\<close>.
\<close>

definition defineRoles :: "heap \<Rightarrow> addr \<Rightarrow> error + (addr \<times> heap)" where
  "defineRoles h definitions =
     (let (frozenDefinitions, h0) = newObject h (JSObject [] ObjectPrototype False)
      in case defineLoop h0 definitions frozenDefinitions (objectKeys h0 definitions) of
           Inl e \<Rightarrow> Inl e
         | Inr h1 \<Rightarrow> Inr (frozenDefinitions, freezeObject h1 frozenDefinitions))"

definition registry :: "heap \<Rightarrow> addr \<Rightarrow> RoleRegistry" where
  "registry h frozenDefinitions =
     \<lparr>getPermissions =
        (\<lambda>role. let perms = getProperty h frozenDefinitions role
               in if perms \<noteq> UndefinedVal then perms else ArrayVal []),
      hasRole = (\<lambda>role. hasOwnProperty h frozenDefinitions role),
      getRoleNames = objectKeys h frozenDefinitions\<rparr>"

text \<open>\<^verbatim>\<open>createEmptyRegistry()\<close> is \<^verbatim>\<open>defineRoles({})\<close>: the literal allocates an empty object.\<close>

definition createEmptyRegistry :: "heap \<Rightarrow> error + (addr \<times> heap)" where
  "createEmptyRegistry h =
     (let (definitions, h1) = newObject h (JSObject [] ObjectPrototype False)
      in defineRoles h1 definitions)"

section \<open>The wildcard rule in the words of the specification\<close>

text \<open>
  The specification states the rule on the set of effective permissions without the
  loop: grant when the set holds the requested string, or \<^verbatim>\<open>"*"\<close>, or
  \<^verbatim>\<open>prefix + ".*"\<close> for a prefix of one or more, but not all, of the dot-separated
  segments. \<open>spec_grants\<close> is that rule, written from the specification, to be compared
  with \<open>canUser\<close>; \<open>joinDots\<close> is \<^verbatim>\<open>Array.prototype.join(".")\<close>.
\<close>

fun joinDots :: "jsstring list \<Rightarrow> jsstring" where
  "joinDots [] = []"
| "joinDots [x] = x"
| "joinDots (x # y # r) = x @ lit ''.'' @ joinDots (y # r)"

definition spec_prefixes :: "jsstring \<Rightarrow> jsstring list" where
  "spec_prefixes p =
     map (\<lambda>n. joinDots (take n (split_js 0x2E p))) [1..<length (split_js 0x2E p)]"

definition spec_grants :: "jsstring set \<Rightarrow> jsstring \<Rightarrow> bool" where
  "spec_grants S p =
     (p \<in> S \<or> lit ''*'' \<in> S \<or> (\<exists>q\<in>set (spec_prefixes p). q @ lit ''.*'' \<in> S))"

section \<open>Stores, users and registries used as test inputs\<close>

definition emptyHeap :: heap where
  "emptyHeap =
     \<lparr>arrays = (\<lambda>_. JSArray [] False),
      objects = (\<lambda>_. JSObject [] ObjectPrototype False),
      lim = 0\<rparr>"

text \<open>\<^verbatim>\<open>{ admin: ["*"] }\<close>: the array at address 0, the mapping at address 1.\<close>

definition adminHeap :: heap where
  "adminHeap =
     (let (a, h1) = newArray emptyHeap (JSArray [lit ''*''] False);
          (d, h2) = newObject h1 (JSObject [(lit ''admin'', Some a)] ObjectPrototype False)
      in h2)"

text \<open>
  \<^verbatim>\<open>JSON.parse('{"__proto__": ["user.read"]}')\<close>: an object with the own enumerable key
  \<^verbatim>\<open>__proto__\<close>; the array at address 0, the mapping at address 1.
\<close>

definition protoHeap :: heap where
  "protoHeap =
     (let (a, h1) = newArray emptyHeap (JSArray [lit ''user.read''] False);
          (d, h2) = newObject h1 (JSObject [(lit ''__proto__'', Some a)] ObjectPrototype False)
      in h2)"

text \<open>
  What a caller can do to the two objects it owns in \<open>adminHeap\<close> after the call:
  replace the contents of its array, and empty its mapping.
\<close>

definition tamper :: "heap \<Rightarrow> heap" where
  "tamper h =
     h\<lparr>arrays := (arrays h)(0 := JSArray [lit ''guest.read''] False),
       objects := (objects h)(1 := JSObject [] ObjectPrototype False)\<rparr>"

definition userWith :: "jsstring list option \<Rightarrow> jsstring list option \<Rightarrow> UserContext" where
  "userWith rs ps = \<lparr>userId = None, roles = rs, permissions = ps, meta = None\<rparr>"

text \<open>
  A registry that keeps to the declared type of \<^verbatim>\<open>RoleRegistry\<close>: \<^verbatim>\<open>getPermissions\<close>
  answers with an array for every role name.
\<close>

definition staticRegistry :: "(jsstring \<times> jsstring list) list \<Rightarrow> RoleRegistry" where
  "staticRegistry ds =
     \<lparr>getPermissions = (\<lambda>role. ArrayVal (case map_of ds role of Some ps \<Rightarrow> ps | None \<Rightarrow> [])),
      hasRole = (\<lambda>role. role \<in> set (map fst ds)),
      getRoleNames = map fst ds\<rparr>"

text \<open>
  A registry whose \<^verbatim>\<open>getPermissions\<close> answers with a function for every role name, as
  the registry of \<open>defineRoles\<close> does for \<^verbatim>\<open>"constructor"\<close>.
\<close>

definition throwingRegistry :: RoleRegistry where
  "throwingRegistry =
     \<lparr>getPermissions = (\<lambda>role. FunctionVal), hasRole = (\<lambda>role. False), getRoleNames = []\<rparr>"

text \<open>
  \<open>refsWithin L U ob\<close>: every array that the object \<open>ob\<close> refers to, as a property
  value or as its prototype, lives at an address from \<open>L\<close> up to, not including, \<open>U\<close>.
\<close>

definition refsWithin :: "addr \<Rightarrow> addr \<Rightarrow> jsobject \<Rightarrow> bool" where
  "refsWithin L U ob \<longleftrightarrow>
     (\<forall>k a. (k, Some a) \<in> set (props ob) \<longrightarrow> L \<le> a \<and> a < U) \<and>
     (\<forall>a. proto ob = ArrayInstance a \<longrightarrow> L \<le> a \<and> a < U)"

text \<open>
  Names for what the proofs speak about: one round of the namespace variable of
  \<^verbatim>\<open>hasWildcardAccess\<close>; the permissions a role contributes to the effective set; an
  optional list read as a list.
\<close>

definition nextNamespace :: "jsstring \<Rightarrow> jsstring \<Rightarrow> jsstring" where
  "nextNamespace namespace part =
     (if namespace = [] then part else namespace @ lit ''.'' @ part)"

definition rolePermissions :: "RoleRegistry \<Rightarrow> jsstring \<Rightarrow> jsstring set" where
  "rolePermissions R role =
     (case iterate (getPermissions R role) of Inl e \<Rightarrow> {} | Inr ps \<Rightarrow> set ps)"

definition optList :: "'a list option \<Rightarrow> 'a list" where
  "optList xs = (case xs of None \<Rightarrow> [] | Some ys \<Rightarrow> ys)"

section \<open>Properties of the permission engine\<close>

lemma trim_Nil_iff: "trim s = [] \<longleftrightarrow> (\<forall>c\<in>set s. isWhiteSpace c)"
proof
  assume "trim s = []"
  then have "\<forall>c\<in>set (dropWhile isWhiteSpace s). isWhiteSpace c"
    by (simp add: trim_def dropWhile_eq_Nil_conv)
  then have "dropWhile isWhiteSpace s = []"
    by (metis hd_dropWhile list.set_sel(1))
  then show "\<forall>c\<in>set s. isWhiteSpace c"
    by (simp add: dropWhile_eq_Nil_conv)
next
  assume "\<forall>c\<in>set s. isWhiteSpace c"
  then show "trim s = []"
    by (auto simp: trim_def dest: set_dropWhileD)
qed

text \<open>
  Claim C4: for every registry and every permission string, the global wildcard
  included, \<open>canUser\<close> returns false when the user context is \<^verbatim>\<open>null\<close> or
  \<^verbatim>\<open>undefined\<close>.
\<close>

theorem canUser_no_user:
  "canUser Null p R = Inr False \<and> canUser Undefined p R = Inr False"
  by (simp add: canUser_def)

text \<open>
  Claim C5: for every user context that is present, whatever it holds, and every
  registry, \<open>canUser\<close> returns false when the requested permission is the empty string or
  consists of white space only. The registry is not consulted.
\<close>

theorem canUser_blank:
  assumes "p = [] \<or> (\<forall>c\<in>set p. isWhiteSpace c)"
  shows "canUser (Defined u) p R = Inr False"
proof -
  from assms have "p = [] \<or> trim p = []"
    by (auto simp: trim_Nil_iff)
  then show ?thesis
    by (simp add: canUser_def)
qed

theorem canUser_blank_witness:
  "list_all isWhiteSpace (lit ''   '') \<and>
   canUser (Defined (userWith None (Some [lit ''*'']))) (lit ''   '') (staticRegistry [])
     = Inr False"
proof -
  have ws: "list_all isWhiteSpace (lit ''   '')"
    by code_simp
  then have "lit ''   '' = [] \<or> (\<forall>c\<in>set (lit ''   ''). isWhiteSpace c)"
    by (simp add: list_all_iff)
  then have "canUser (Defined (userWith None (Some [lit ''*'']))) (lit ''   '')
      (staticRegistry []) = Inr False"
    by (rule canUser_blank)
  with ws show ?thesis by simp
qed

lemma canUser_True_collect:
  assumes "canUser u p R = Inr True"
  obtains v S where "u = Defined v" and "collectUserPermissions v R = Inr S"
  using assms by (auto simp: canUser_def split: nullable.splits if_splits sum.splits)

lemma canUser_no_throw:
  assumes "collectUserPermissions v R = Inr S"
  shows "\<exists>b. canUser (Defined v) q R = Inr b"
  using assms by (auto simp: canUser_def)

lemma allLoop_True:
  "allLoop u R ps = Inr True \<longleftrightarrow> (\<forall>p\<in>set ps. canUser u p R = Inr True)"
  by (induction ps) (auto split: sum.splits)

lemma anyLoop_True:
  "anyLoop u R ps = Inr True \<longleftrightarrow> (\<exists>p\<in>set ps. canUser u p R = Inr True)"
proof (induction ps)
  case Nil
  then show ?case by simp
next
  case (Cons q ps)
  show ?case
  proof (cases "\<exists>p\<in>set (q # ps). canUser u p R = Inr True")
    case True
    then obtain p where p: "canUser u p R = Inr True" by blast
    then obtain v S where v: "u = Defined v" "collectUserPermissions v R = Inr S"
      by (rule canUser_True_collect)
    then obtain b where b: "canUser u q R = Inr b"
      using canUser_no_throw by blast
    with True Cons show ?thesis
      by (cases b) auto
  next
    case False
    with Cons show ?thesis
      by (auto split: sum.splits if_splits)
  qed
qed

text \<open>
  What the two loops return when every call of \<open>canUser\<close> in the list returns, and
  when they throw: at the first element on which \<open>canUser\<close> throws, provided every
  element before it let the loop go on.
\<close>

lemma allLoop_returns:
  "\<forall>p\<in>set ps. \<exists>b. canUser u p R = Inr b \<Longrightarrow>
   allLoop u R ps = Inr (\<forall>p\<in>set ps. canUser u p R = Inr True)"
  by (induction ps) auto

lemma anyLoop_returns:
  "\<forall>p\<in>set ps. \<exists>b. canUser u p R = Inr b \<Longrightarrow>
   anyLoop u R ps = Inr (\<exists>p\<in>set ps. canUser u p R = Inr True)"
  by (induction ps) auto

lemma allLoop_Inl:
  "allLoop u R ps = Inl e \<longleftrightarrow>
     (\<exists>xs y ys. ps = xs @ y # ys \<and> (\<forall>x\<in>set xs. canUser u x R = Inr True) \<and>
        canUser u y R = Inl e)"
proof (induction ps)
  case Nil
  then show ?case by simp
next
  case (Cons q ps)
  show ?case
  proof (cases "canUser u q R")
    case (Inl e')
    have "(\<exists>xs y ys. q # ps = xs @ y # ys \<and> (\<forall>x\<in>set xs. canUser u x R = Inr True) \<and>
        canUser u y R = Inl e) \<longleftrightarrow> e' = e"
    proof
      assume "\<exists>xs y ys. q # ps = xs @ y # ys \<and> (\<forall>x\<in>set xs. canUser u x R = Inr True) \<and>
        canUser u y R = Inl e"
      then obtain xs y ys where d: "q # ps = xs @ y # ys"
        "\<forall>x\<in>set xs. canUser u x R = Inr True" "canUser u y R = Inl e" by blast
      with Inl show "e' = e" by (cases xs) auto
    next
      assume "e' = e"
      with Inl have "q # ps = [] @ q # ps \<and> (\<forall>x\<in>set []. canUser u x R = Inr True) \<and>
        canUser u q R = Inl e" by simp
      then show "\<exists>xs y ys. q # ps = xs @ y # ys \<and> (\<forall>x\<in>set xs. canUser u x R = Inr True) \<and>
        canUser u y R = Inl e" by blast
    qed
    with Inl show ?thesis by simp
  next
    case (Inr b)
    show ?thesis
    proof (cases b)
      case True
      have "(\<exists>xs y ys. q # ps = xs @ y # ys \<and> (\<forall>x\<in>set xs. canUser u x R = Inr True) \<and>
        canUser u y R = Inl e) \<longleftrightarrow>
        (\<exists>xs y ys. ps = xs @ y # ys \<and> (\<forall>x\<in>set xs. canUser u x R = Inr True) \<and>
        canUser u y R = Inl e)"
      proof
        assume "\<exists>xs y ys. q # ps = xs @ y # ys \<and> (\<forall>x\<in>set xs. canUser u x R = Inr True) \<and>
        canUser u y R = Inl e"
        then obtain xs y ys where d: "q # ps = xs @ y # ys"
          "\<forall>x\<in>set xs. canUser u x R = Inr True" "canUser u y R = Inl e" by blast
        with Inr obtain xs' where "xs = q # xs'" by (cases xs) auto
        with d have "ps = xs' @ y # ys \<and> (\<forall>x\<in>set xs'. canUser u x R = Inr True) \<and>
          canUser u y R = Inl e" by simp
        then show "\<exists>xs y ys. ps = xs @ y # ys \<and> (\<forall>x\<in>set xs. canUser u x R = Inr True) \<and>
        canUser u y R = Inl e" by blast
      next
        assume "\<exists>xs y ys. ps = xs @ y # ys \<and> (\<forall>x\<in>set xs. canUser u x R = Inr True) \<and>
        canUser u y R = Inl e"
        then obtain xs y ys where d: "ps = xs @ y # ys"
          "\<forall>x\<in>set xs. canUser u x R = Inr True" "canUser u y R = Inl e" by blast
        with Inr True have "q # ps = (q # xs) @ y # ys \<and>
          (\<forall>x\<in>set (q # xs). canUser u x R = Inr True) \<and> canUser u y R = Inl e" by simp
        then show "\<exists>xs y ys. q # ps = xs @ y # ys \<and> (\<forall>x\<in>set xs. canUser u x R = Inr True) \<and>
        canUser u y R = Inl e" by blast
      qed
      with Inr True Cons.IH show ?thesis by simp
    next
      case False
      have "\<not> (\<exists>xs y ys. q # ps = xs @ y # ys \<and> (\<forall>x\<in>set xs. canUser u x R = Inr True) \<and>
        canUser u y R = Inl e)"
      proof
        assume "\<exists>xs y ys. q # ps = xs @ y # ys \<and> (\<forall>x\<in>set xs. canUser u x R = Inr True) \<and>
        canUser u y R = Inl e"
        then obtain xs y ys where d: "q # ps = xs @ y # ys"
          "\<forall>x\<in>set xs. canUser u x R = Inr True" "canUser u y R = Inl e" by blast
        with Inr False show False by (cases xs) auto
      qed
      with Inr False show ?thesis by simp
    qed
  qed
qed

lemma anyLoop_Inl:
  "anyLoop u R ps = Inl e \<longleftrightarrow>
     (\<exists>xs y ys. ps = xs @ y # ys \<and> (\<forall>x\<in>set xs. canUser u x R = Inr False) \<and>
        canUser u y R = Inl e)"
proof (induction ps)
  case Nil
  then show ?case by simp
next
  case (Cons q ps)
  show ?case
  proof (cases "canUser u q R")
    case (Inl e')
    have "(\<exists>xs y ys. q # ps = xs @ y # ys \<and> (\<forall>x\<in>set xs. canUser u x R = Inr False) \<and>
        canUser u y R = Inl e) \<longleftrightarrow> e' = e"
    proof
      assume "\<exists>xs y ys. q # ps = xs @ y # ys \<and> (\<forall>x\<in>set xs. canUser u x R = Inr False) \<and>
        canUser u y R = Inl e"
      then obtain xs y ys where d: "q # ps = xs @ y # ys"
        "\<forall>x\<in>set xs. canUser u x R = Inr False" "canUser u y R = Inl e" by blast
      with Inl show "e' = e" by (cases xs) auto
    next
      assume "e' = e"
      with Inl have "q # ps = [] @ q # ps \<and> (\<forall>x\<in>set []. canUser u x R = Inr False) \<and>
        canUser u q R = Inl e" by simp
      then show "\<exists>xs y ys. q # ps = xs @ y # ys \<and> (\<forall>x\<in>set xs. canUser u x R = Inr False) \<and>
        canUser u y R = Inl e" by blast
    qed
    with Inl show ?thesis by simp
  next
    case (Inr b)
    show ?thesis
    proof (cases b)
      case False
      have "(\<exists>xs y ys. q # ps = xs @ y # ys \<and> (\<forall>x\<in>set xs. canUser u x R = Inr False) \<and>
        canUser u y R = Inl e) \<longleftrightarrow>
        (\<exists>xs y ys. ps = xs @ y # ys \<and> (\<forall>x\<in>set xs. canUser u x R = Inr False) \<and>
        canUser u y R = Inl e)"
      proof
        assume "\<exists>xs y ys. q # ps = xs @ y # ys \<and> (\<forall>x\<in>set xs. canUser u x R = Inr False) \<and>
        canUser u y R = Inl e"
        then obtain xs y ys where d: "q # ps = xs @ y # ys"
          "\<forall>x\<in>set xs. canUser u x R = Inr False" "canUser u y R = Inl e" by blast
        with Inr obtain xs' where "xs = q # xs'" by (cases xs) auto
        with d have "ps = xs' @ y # ys \<and> (\<forall>x\<in>set xs'. canUser u x R = Inr False) \<and>
          canUser u y R = Inl e" by simp
        then show "\<exists>xs y ys. ps = xs @ y # ys \<and> (\<forall>x\<in>set xs. canUser u x R = Inr False) \<and>
        canUser u y R = Inl e" by blast
      next
        assume "\<exists>xs y ys. ps = xs @ y # ys \<and> (\<forall>x\<in>set xs. canUser u x R = Inr False) \<and>
        canUser u y R = Inl e"
        then obtain xs y ys where d: "ps = xs @ y # ys"
          "\<forall>x\<in>set xs. canUser u x R = Inr False" "canUser u y R = Inl e" by blast
        with Inr False have "q # ps = (q # xs) @ y # ys \<and>
          (\<forall>x\<in>set (q # xs). canUser u x R = Inr False) \<and> canUser u y R = Inl e" by simp
        then show "\<exists>xs y ys. q # ps = xs @ y # ys \<and> (\<forall>x\<in>set xs. canUser u x R = Inr False) \<and>
        canUser u y R = Inl e" by blast
      qed
      with Inr False Cons.IH show ?thesis by simp
    next
      case True
      have "\<not> (\<exists>xs y ys. q # ps = xs @ y # ys \<and> (\<forall>x\<in>set xs. canUser u x R = Inr False) \<and>
        canUser u y R = Inl e)"
      proof
        assume "\<exists>xs y ys. q # ps = xs @ y # ys \<and> (\<forall>x\<in>set xs. canUser u x R = Inr False) \<and>
        canUser u y R = Inl e"
        then obtain xs y ys where d: "q # ps = xs @ y # ys"
          "\<forall>x\<in>set xs. canUser u x R = Inr False" "canUser u y R = Inl e" by blast
        with Inr True show False by (cases xs) auto
      qed
      with Inr True show ?thesis by simp
    qed
  qed
qed

text \<open>
  Claim C6: on an empty list \<open>canUserAll\<close> and \<open>canUserAny\<close> both return false. On a
  non-empty list \<open>canUserAll\<close> returns true exactly when \<open>canUser\<close> returns true for
  every element, and \<open>canUserAny\<close> returns true exactly when \<open>canUser\<close> returns true for
  at least one element; when every call of \<open>canUser\<close> returns, \<open>canUserAll\<close> returns the
  conjunction and \<open>canUserAny\<close> the disjunction of the results, so a denial is the
  value false; and either function throws exactly the error of the first call of
  \<open>canUser\<close> that throws before the loop has returned.
\<close>

theorem canUserAll_canUserAny:
  "(ps = [] \<longrightarrow> canUserAll u ps R = Inr False \<and> canUserAny u ps R = Inr False) \<and>
   (ps \<noteq> [] \<longrightarrow>
      (canUserAll u ps R = Inr True \<longleftrightarrow> (\<forall>p\<in>set ps. canUser u p R = Inr True)) \<and>
      (canUserAny u ps R = Inr True \<longleftrightarrow> (\<exists>p\<in>set ps. canUser u p R = Inr True)) \<and>
      ((\<forall>p\<in>set ps. \<exists>b. canUser u p R = Inr b) \<longrightarrow>
         canUserAll u ps R = Inr (\<forall>p\<in>set ps. canUser u p R = Inr True) \<and>
         canUserAny u ps R = Inr (\<exists>p\<in>set ps. canUser u p R = Inr True)) \<and>
      (\<forall>e. canUserAll u ps R = Inl e \<longleftrightarrow>
         (\<exists>xs y ys. ps = xs @ y # ys \<and> (\<forall>x\<in>set xs. canUser u x R = Inr True) \<and>
            canUser u y R = Inl e)) \<and>
      (\<forall>e. canUserAny u ps R = Inl e \<longleftrightarrow>
         (\<exists>xs y ys. ps = xs @ y # ys \<and> (\<forall>x\<in>set xs. canUser u x R = Inr False) \<and>
            canUser u y R = Inl e)))"
proof (intro conjI impI allI)
  assume "ps = []"
  then show "canUserAll u ps R = Inr False" and "canUserAny u ps R = Inr False"
    by (simp_all add: canUserAll_def canUserAny_def)
next
  assume ne: "ps \<noteq> []"
  then have loops: "canUserAll u ps R = allLoop u R ps" "canUserAny u ps R = anyLoop u R ps"
    by (simp_all add: canUserAll_def canUserAny_def)
  show "canUserAll u ps R = Inr True \<longleftrightarrow> (\<forall>p\<in>set ps. canUser u p R = Inr True)"
    unfolding loops by (rule allLoop_True)
  show "canUserAny u ps R = Inr True \<longleftrightarrow> (\<exists>p\<in>set ps. canUser u p R = Inr True)"
    unfolding loops by (rule anyLoop_True)
  show "canUserAll u ps R = Inl e \<longleftrightarrow>
      (\<exists>xs y ys. ps = xs @ y # ys \<and> (\<forall>x\<in>set xs. canUser u x R = Inr True) \<and>
         canUser u y R = Inl e)" for e
    unfolding loops by (rule allLoop_Inl)
  show "canUserAny u ps R = Inl e \<longleftrightarrow>
      (\<exists>xs y ys. ps = xs @ y # ys \<and> (\<forall>x\<in>set xs. canUser u x R = Inr False) \<and>
         canUser u y R = Inl e)" for e
    unfolding loops by (rule anyLoop_Inl)
  assume ret: "\<forall>p\<in>set ps. \<exists>b. canUser u p R = Inr b"
  show "canUserAll u ps R = Inr (\<forall>p\<in>set ps. canUser u p R = Inr True)"
    unfolding loops using ret by (rule allLoop_returns)
  show "canUserAny u ps R = Inr (\<exists>p\<in>set ps. canUser u p R = Inr True)"
    unfolding loops using ret by (rule anyLoop_returns)
qed

theorem canUserAll_canUserAny_witness:
  "canUserAll (Defined (userWith None (Some [lit ''report.*''])))
     [lit ''report.view'', lit ''report.export''] (staticRegistry []) = Inr True \<and>
   canUserAny (Defined (userWith None (Some [lit ''report.*''])))
     [lit ''user.read'', lit ''report.view''] (staticRegistry []) = Inr True \<and>
   canUserAll (Defined (userWith None (Some [lit ''report.*''])))
     [lit ''report.view'', lit ''user.read''] (staticRegistry []) = Inr False \<and>
   canUserAny (Defined (userWith None (Some [lit ''report.*''])))
     [lit ''user.read'', lit ''user.update''] (staticRegistry []) = Inr False \<and>
   canUserAll (Defined (userWith None (Some [lit ''report.*'']))) [] (staticRegistry [])
     = Inr False \<and>
   canUserAny (Defined (userWith None (Some [lit ''report.*'']))) [] (staticRegistry [])
     = Inr False \<and>
   canUserAll (Defined (userWith (Some [lit ''admin'']) None))
     [lit ''user.read''] throwingRegistry = Inl TypeError \<and>
   canUserAny (Defined (userWith (Some [lit ''admin'']) None))
     [lit ''user.read''] throwingRegistry = Inl TypeError"
proof -
  let ?u = "Defined (userWith None (Some [lit ''report.*'']))"
  let ?R = "staticRegistry []"
  let ?w = "Defined (userWith (Some [lit ''admin'']) None)"
  have v: "canUser ?u (lit ''report.view'') ?R = Inr True"
    by code_simp
  have e: "canUser ?u (lit ''report.export'') ?R = Inr True"
    by code_simp
  have r: "canUser ?u (lit ''user.read'') ?R = Inr False"
    by code_simp
  have d: "canUser ?u (lit ''user.update'') ?R = Inr False"
    by code_simp
  have t: "canUser ?w (lit ''user.read'') throwingRegistry = Inl TypeError"
    by code_simp
  have ne: "[a, b] \<noteq> []" "[a] \<noteq> []" for a b :: jsstring
    by simp_all
  note all_granted =
    canUserAll_canUserAny [of "[lit ''report.view'', lit ''report.export'']" ?u ?R,
      THEN conjunct2, THEN mp, OF ne(1), THEN conjunct1]
  have a1: "canUserAll ?u [lit ''report.view'', lit ''report.export''] ?R = Inr True"
    using all_granted v e by simp
  note any_granted =
    canUserAll_canUserAny [of "[lit ''user.read'', lit ''report.view'']" ?u ?R,
      THEN conjunct2, THEN mp, OF ne(1), THEN conjunct2, THEN conjunct1]
  have a2: "canUserAny ?u [lit ''user.read'', lit ''report.view''] ?R = Inr True"
    using any_granted v by simp
  have r3: "\<forall>p\<in>set [lit ''report.view'', lit ''user.read'']. \<exists>b. canUser ?u p ?R = Inr b"
    using v r by auto
  note all_exact =
    canUserAll_canUserAny [of "[lit ''report.view'', lit ''user.read'']" ?u ?R,
      THEN conjunct2, THEN mp, OF ne(1), THEN conjunct2, THEN conjunct2, THEN conjunct1,
      THEN mp, OF r3, THEN conjunct1]
  have a3: "canUserAll ?u [lit ''report.view'', lit ''user.read''] ?R = Inr False"
    using all_exact v r by simp
  have r4: "\<forall>p\<in>set [lit ''user.read'', lit ''user.update'']. \<exists>b. canUser ?u p ?R = Inr b"
    using r d by auto
  note any_exact =
    canUserAll_canUserAny [of "[lit ''user.read'', lit ''user.update'']" ?u ?R,
      THEN conjunct2, THEN mp, OF ne(1), THEN conjunct2, THEN conjunct2, THEN conjunct1,
      THEN mp, OF r4, THEN conjunct2]
  have a4: "canUserAny ?u [lit ''user.read'', lit ''user.update''] ?R = Inr False"
    using any_exact r d by simp
  have a5: "canUserAll ?u [] ?R = Inr False" "canUserAny ?u [] ?R = Inr False"
    using canUserAll_canUserAny [of "[]" ?u ?R, THEN conjunct1, THEN mp, OF refl]
    by simp_all
  have first: "[lit ''user.read''] = [] @ lit ''user.read'' # []"
    by simp
  have ex_all: "\<exists>xs y ys. [lit ''user.read''] = xs @ y # ys \<and>
      (\<forall>x\<in>set xs. canUser ?w x throwingRegistry = Inr True) \<and>
      canUser ?w y throwingRegistry = Inl TypeError"
    using first t by (intro exI[of _ "[]"] exI[of _ "lit ''user.read''"]) simp
  have ex_any: "\<exists>xs y ys. [lit ''user.read''] = xs @ y # ys \<and>
      (\<forall>x\<in>set xs. canUser ?w x throwingRegistry = Inr False) \<and>
      canUser ?w y throwingRegistry = Inl TypeError"
    using first t by (intro exI[of _ "[]"] exI[of _ "lit ''user.read''"]) simp
  note throws = canUserAll_canUserAny [of "[lit ''user.read'']" ?w throwingRegistry,
      THEN conjunct2, THEN mp, OF ne(2), THEN conjunct2, THEN conjunct2, THEN conjunct2]
  have a6: "canUserAll ?w [lit ''user.read''] throwingRegistry = Inl TypeError"
    using throws [THEN conjunct1, THEN spec, of TypeError, THEN iffD2, OF ex_all] .
  have a7: "canUserAny ?w [lit ''user.read''] throwingRegistry = Inl TypeError"
    using throws [THEN conjunct2, THEN spec, of TypeError, THEN iffD2, OF ex_any] .
  from a1 a2 a3 a4 a5 a6 a7 show ?thesis by simp
qed

text \<open>
  Claim C7: for every user context, absent ones included, every permission string and
  every registry, the \<open>allowed\<close> field of \<open>checkPermission\<close> equals the result of
  \<open>canUser\<close>; where \<open>canUser\<close> throws, \<open>checkPermission\<close> throws the same error.
\<close>

theorem checkPermission_allowed:
  "map_sum id allowed (checkPermission u p R) = canUser u p R"
proof (cases u)
  case (Defined v)
  show ?thesis
  proof (cases "p = [] \<or> trim p = []")
    case True
    with Defined show ?thesis
      by (simp add: checkPermission_def canUser_def)
  next
    case False
    with Defined show ?thesis
      by (simp add: checkPermission_def split: sum.splits)
  qed
qed (simp_all add: checkPermission_def canUser_def)

subsection \<open>The loop of \<open>hasWildcardAccess\<close> and the rule of the specification\<close>

text \<open>
  The loop grants exactly when, after some number of rounds, the namespace built so
  far, followed by \<^verbatim>\<open>".*"\<close>, is in the set (\<open>namespaceLoop_iff\<close>). When the first
  segment of the request is not empty, that namespace is the join of the segments read
  so far, and \<open>canUser\<close> decides as \<open>spec_grants\<close> does (\<open>canUser_spec_grants\<close>): the
  two differ only on requests that start with a dot.
\<close>

lemma split_js_not_Nil [simp]: "split_js sep s \<noteq> []"
  by (induction s) (auto split: list.splits)

lemma hd_split_js: "hd (split_js sep s) = takeWhile (\<lambda>c. c \<noteq> sep) s"
  by (induction s) (auto split: list.splits)

lemma lit_dot_not_Nil [simp]: "lit ''.'' \<noteq> []"
  by (simp add: lit_def)

lemma namespaceLoop_iff:
  "namespaceLoop S ns rest \<longleftrightarrow>
     (\<exists>n. 1 \<le> n \<and> n \<le> length rest \<and> foldl nextNamespace ns (take n rest) @ lit ''.*'' \<in> S)"
proof (induction rest arbitrary: ns)
  case Nil
  then show ?case by simp
next
  case (Cons part rest)
  let ?ns' = "nextNamespace ns part"
  have "(\<exists>n. 1 \<le> n \<and> n \<le> length (part # rest) \<and>
            foldl nextNamespace ns (take n (part # rest)) @ lit ''.*'' \<in> S) \<longleftrightarrow>
        (?ns' @ lit ''.*'' \<in> S \<or>
         (\<exists>m. 1 \<le> m \<and> m \<le> length rest \<and> foldl nextNamespace ?ns' (take m rest) @ lit ''.*'' \<in> S))"
    (is "?L \<longleftrightarrow> ?R")
  proof
    assume ?L
    then obtain n where n: "1 \<le> n" "n \<le> length (part # rest)"
      "foldl nextNamespace ns (take n (part # rest)) @ lit ''.*'' \<in> S" by blast
    then obtain m where m: "n = Suc m" by (cases n) auto
    show ?R
    proof (cases m)
      case 0
      with n m show ?thesis by simp
    next
      case (Suc k)
      with n m show ?thesis by auto
    qed
  next
    assume ?R
    then show ?L
    proof
      assume "?ns' @ lit ''.*'' \<in> S"
      then have "1 \<le> (1::nat) \<and> 1 \<le> length (part # rest) \<and>
          foldl nextNamespace ns (take 1 (part # rest)) @ lit ''.*'' \<in> S" by simp
      then show ?L by blast
    next
      assume "\<exists>m. 1 \<le> m \<and> m \<le> length rest \<and>
          foldl nextNamespace ?ns' (take m rest) @ lit ''.*'' \<in> S"
      then obtain m where "1 \<le> m" "m \<le> length rest"
        "foldl nextNamespace ?ns' (take m rest) @ lit ''.*'' \<in> S" by blast
      then have "1 \<le> Suc m \<and> Suc m \<le> length (part # rest) \<and>
          foldl nextNamespace ns (take (Suc m) (part # rest)) @ lit ''.*'' \<in> S" by simp
      then show ?L by blast
    qed
  qed
  moreover have "namespaceLoop S ns (part # rest) \<longleftrightarrow>
      (?ns' @ lit ''.*'' \<in> S \<or> namespaceLoop S ?ns' rest)"
    by (simp add: nextNamespace_def Let_def)
  ultimately show ?case
    using Cons.IH[of ?ns'] by simp
qed

lemma foldl_nextNamespace:
  "ns \<noteq> [] \<Longrightarrow>
   foldl nextNamespace ns xs = ns @ concat (map (\<lambda>x. lit ''.'' @ x) xs)"
  by (induction xs arbitrary: ns) (simp_all add: nextNamespace_def)

lemma joinDots_Cons: "joinDots (x # xs) = x @ concat (map (\<lambda>y. lit ''.'' @ y) xs)"
  by (induction xs arbitrary: x) simp_all

lemma foldl_nextNamespace_joinDots:
  assumes "xs \<noteq> []" and "hd xs \<noteq> []"
  shows "foldl nextNamespace [] xs = joinDots xs"
proof -
  from assms obtain x r where xs: "xs = x # r" "x \<noteq> []" by (cases xs) auto
  then show ?thesis
    by (simp add: nextNamespace_def foldl_nextNamespace joinDots_Cons)
qed

lemma hasWildcardAccess_spec:
  assumes "p \<noteq> []" and "hd p \<noteq> 0x2E"
  shows "hasWildcardAccess S p \<longleftrightarrow>
           lit ''*'' \<in> S \<or> (\<exists>q\<in>set (spec_prefixes p). q @ lit ''.*'' \<in> S)"
proof -
  let ?parts = "split_js 0x2E p"
  from assms have "takeWhile (\<lambda>c. c \<noteq> 0x2E) p \<noteq> []"
    by (cases p) simp_all
  then have hd: "hd ?parts \<noteq> []"
    by (simp only: hd_split_js not_False_eq_True)
  have eq: "foldl nextNamespace [] (take n (butlast ?parts)) = joinDots (take n ?parts)"
    if "1 \<le> n" "n \<le> length (butlast ?parts)" for n
  proof -
    from that have "n < length ?parts" by simp
    then have t: "take n (butlast ?parts) = take n ?parts"
      by (simp add: take_butlast)
    from that have "take n ?parts \<noteq> []" "hd (take n ?parts) = hd ?parts"
      by (cases n; cases ?parts; simp)+
    with hd t show ?thesis
      by (simp add: foldl_nextNamespace_joinDots)
  qed
  have "namespaceLoop S [] (butlast ?parts) \<longleftrightarrow>
        (\<exists>n. 1 \<le> n \<and> n < length ?parts \<and> joinDots (take n ?parts) @ lit ''.*'' \<in> S)"
    (is "?A \<longleftrightarrow> ?B")
  proof
    assume ?A
    then obtain n where n: "1 \<le> n" "n \<le> length (butlast ?parts)"
      "foldl nextNamespace [] (take n (butlast ?parts)) @ lit ''.*'' \<in> S"
      unfolding namespaceLoop_iff by blast
    with eq[OF n(1,2)] have "1 \<le> n \<and> n < length ?parts \<and>
        joinDots (take n ?parts) @ lit ''.*'' \<in> S" by simp
    then show ?B by blast
  next
    assume ?B
    then obtain n where n: "1 \<le> n" "n < length ?parts"
      "joinDots (take n ?parts) @ lit ''.*'' \<in> S" by blast
    then have le: "n \<le> length (butlast ?parts)" by simp
    with eq[OF n(1) le] n have "1 \<le> n \<and> n \<le> length (butlast ?parts) \<and>
      foldl nextNamespace [] (take n (butlast ?parts)) @ lit ''.*'' \<in> S" by simp
    then show ?A unfolding namespaceLoop_iff by blast
  qed
  moreover have "(\<exists>q\<in>set (spec_prefixes p). q @ lit ''.*'' \<in> S) \<longleftrightarrow>
      (\<exists>n. 1 \<le> n \<and> n < length ?parts \<and> joinDots (take n ?parts) @ lit ''.*'' \<in> S)"
    by (auto simp: spec_prefixes_def)
  ultimately show ?thesis
    by (simp add: hasWildcardAccess_def WILDCARD_PERMISSION_def Let_def)
qed

lemma canUser_spec_grants:
  assumes "collectUserPermissions u R = Inr S"
    and "\<not> (\<forall>c\<in>set p. isWhiteSpace c)"
    and "hd p \<noteq> 0x2E"
  shows "canUser (Defined u) p R = Inr (spec_grants S p)"
proof -
  from assms(2) have ne: "p \<noteq> []" and tr: "trim p \<noteq> []"
    by (auto simp: trim_Nil_iff)
  from ne assms(3) show ?thesis
    using assms(1) tr
    by (simp add: canUser_def spec_grants_def hasWildcardAccess_spec)
qed

lemma canUser_spec_grants_example:
  "canUser (Defined (userWith None (Some [lit ''report.*''])))
     (lit ''report.admin.export'') (staticRegistry []) = Inr True \<and>
   spec_grants {lit ''report.*''} (lit ''report.admin.export'')"
proof -
  let ?u = "userWith None (Some [lit ''report.*''])"
  let ?p = "lit ''report.admin.export''"
  have c: "collectUserPermissions ?u (staticRegistry []) = Inr {lit ''report.*''}"
    by (simp add: collectUserPermissions_def userWith_def addAll_def)
  have nb: "\<not> (\<forall>c\<in>set ?p. isWhiteSpace c)"
    by code_simp
  have hd: "hd ?p \<noteq> 0x2E"
    by code_simp
  have g: "spec_grants {lit ''report.*''} ?p"
    by code_simp
  from canUser_spec_grants[OF c nb hd] g show ?thesis by simp
qed

subsection \<open>The effective permission set and monotonicity\<close>

text \<open>
  When \<open>collectUserPermissions\<close> returns, it returns the direct permissions together
  with what every role contributes; and a grant is kept by every user with at least the
  same roles and direct permissions for whom the collection returns.
\<close>

lemma addAll_set: "addAll S ps = S \<union> set ps"
  unfolding addAll_def by (induction ps arbitrary: S) auto

lemma collectRoles_Inr:
  "collectRoles R S rs = Inr T \<Longrightarrow> T = S \<union> (\<Union>r\<in>set rs. rolePermissions R r)"
proof (induction rs arbitrary: S)
  case Nil
  then show ?case by simp
next
  case (Cons r rs)
  then obtain ps where ps: "iterate (getPermissions R r) = Inr ps"
    and rest: "collectRoles R (addAll S ps) rs = Inr T"
    by (auto split: sum.splits)
  from Cons.IH[OF rest] ps show ?case
    by (auto simp: addAll_set rolePermissions_def)
qed

lemma collectUserPermissions_Inr:
  assumes "collectUserPermissions u R = Inr T"
  shows "T = set (optList (permissions u)) \<union> (\<Union>r\<in>set (optList (roles u)). rolePermissions R r)"
  using assms
  by (auto simp: collectUserPermissions_def optList_def addAll_set Let_def
      dest!: collectRoles_Inr split: option.splits)

lemma namespaceLoop_mono:
  "S \<subseteq> T \<Longrightarrow> namespaceLoop S ns rest \<Longrightarrow> namespaceLoop T ns rest"
  by (induction rest arbitrary: ns) (auto simp: Let_def split: if_splits)

lemma hasWildcardAccess_mono:
  "S \<subseteq> T \<Longrightarrow> hasWildcardAccess S p \<Longrightarrow> hasWildcardAccess T p"
  by (auto simp: hasWildcardAccess_def Let_def dest: namespaceLoop_mono split: if_splits)

lemma canUser_monotone:
  assumes "canUser (Defined u) p R = Inr True"
    and "set (optList (roles u)) \<subseteq> set (optList (roles u'))"
    and "set (optList (permissions u)) \<subseteq> set (optList (permissions u'))"
    and "collectUserPermissions u' R = Inr T"
  shows "canUser (Defined u') p R = Inr True"
proof -
  from assms(1) obtain S where S: "collectUserPermissions u R = Inr S"
    and nb: "\<not> (p = [] \<or> trim p = [])"
    and g: "p \<in> S \<or> hasWildcardAccess S p"
    by (auto simp: canUser_def split: if_splits sum.splits)
  from collectUserPermissions_Inr[OF S] collectUserPermissions_Inr[OF assms(4)] assms(2,3)
  have "S \<subseteq> T" by blast
  with g have "p \<in> T \<or> hasWildcardAccess T p"
    using hasWildcardAccess_mono by blast
  with nb assms(4) show ?thesis
    by (auto simp: canUser_def)
qed

lemma canUser_monotone_example:
  "canUser (Defined (userWith (Some [lit ''admin'']) None)) (lit ''user.read'')
     (staticRegistry [(lit ''admin'', [lit ''user.*''])]) = Inr True \<and>
   canUser (Defined (userWith (Some [lit ''admin'', lit ''support'']) (Some [lit ''custom.feature''])))
     (lit ''user.read'') (staticRegistry [(lit ''admin'', [lit ''user.*''])]) = Inr True"
proof -
  let ?R = "staticRegistry [(lit ''admin'', [lit ''user.*''])]"
  let ?u = "userWith (Some [lit ''admin'']) None"
  let ?u' = "userWith (Some [lit ''admin'', lit ''support'']) (Some [lit ''custom.feature''])"
  have g: "canUser (Defined ?u) (lit ''user.read'') ?R = Inr True"
    by code_simp
  have c: "collectUserPermissions ?u' ?R = Inr (set [lit ''custom.feature'', lit ''user.*''])"
    by code_simp
  have r: "set (optList (roles ?u)) \<subseteq> set (optList (roles ?u'))"
    by (simp add: userWith_def optList_def)
  have d: "set (optList (permissions ?u)) \<subseteq> set (optList (permissions ?u'))"
    by (simp add: userWith_def optList_def)
  from g canUser_monotone[OF g r d c] show ?thesis by simp
qed

text \<open>
  Claim C1 says that \<open>canUser\<close> grants exactly by the rule \<open>spec_grants\<close> on the
  effective permission set. The loop of \<open>hasWildcardAccess\<close> tests
  \<^verbatim>\<open>namespace === ""\<close> to recognise its first round, so empty leading segments are
  dropped from the namespace: for the request \<^verbatim>\<open>".a.b"\<close> it looks for \<^verbatim>\<open>".*"\<close> and
  \<^verbatim>\<open>"a.*"\<close>, where the prefixes of the segments give \<^verbatim>\<open>".*"\<close> and \<^verbatim>\<open>".a.*"\<close>. A user
  holding \<^verbatim>\<open>"a.*"\<close> is granted \<^verbatim>\<open>".a.b"\<close>, which is not under the namespace \<^verbatim>\<open>a\<close>, and
  a user holding \<^verbatim>\<open>".a.*"\<close> is refused it.
\<close>

theorem canUser_leading_dot:
  "canUser (Defined (userWith None (Some [lit ''a.*'']))) (lit ''.a.b'') R = Inr True \<and>
   \<not> spec_grants (set [lit ''a.*'']) (lit ''.a.b'') \<and>
   canUser (Defined (userWith None (Some [lit ''.a.*'']))) (lit ''.a.b'') R = Inr False \<and>
   spec_grants (set [lit ''.a.*'']) (lit ''.a.b'')"
  by code_simp

section \<open>Properties of the role registry\<close>

lemma set_update_subset: "set (AList.update k v al) \<subseteq> insert (k, v) (set al)"
  by (induction al) auto

lemma setProperty_frame:
  assumes "setProperty h fd k v = Inr h'"
  shows "arrays h' = arrays h" and "lim h' = lim h"
    and "\<And>obj. obj \<noteq> fd \<Longrightarrow> objects h' obj = objects h obj"
  using assms
  by (auto simp: setProperty_def writeObject_def Let_def split: if_splits)

lemma refsWithin_mono:
  assumes "refsWithin L U ob" and "U \<le> U'"
  shows "refsWithin L U' ob"
  using assms by (fastforce simp: refsWithin_def)

lemma setProperty_fresh:
  assumes "setProperty h fd k v = Inr h'" and "refsWithin L U (objects h fd)"
    and "L \<le> v" and "v < U"
  shows "refsWithin L U (objects h' fd)"
proof -
  have upd: "\<And>k' a. (k', Some a) \<in> set (AList.update k (Some v) (props (objects h fd)))
      \<Longrightarrow> L \<le> a \<and> a < U"
    using set_update_subset[of k "Some v" "props (objects h fd)"] assms(2,3,4)
    by (auto simp: refsWithin_def)
  show ?thesis
    using assms upd
    by (auto simp: setProperty_def writeObject_def Let_def refsWithin_def split: if_splits)
qed

text \<open>
  The loop only ever stores references to the copies it has just allocated: if the
  arrays that \<^verbatim>\<open>frozenDefinitions\<close> refers to lie between \<open>L\<close> and the allocation limit
  before the loop, they do so after it.
\<close>

lemma defineLoop_fresh:
  assumes "defineLoop h d fd ks = Inr h'" and "L \<le> lim h"
    and "refsWithin L (lim h) (objects h fd)"
  shows "refsWithin L (lim h') (objects h' fd)"
  using assms
proof (induction ks arbitrary: h)
  case Nil
  then show ?case by simp
next
  case (Cons role rest)
  show ?case
  proof (cases "readOwn (objects h d) role")
    case None
    with Cons show ?thesis by simp
  next
    case (Some a)
    define h1 where "h1 = snd (newArray h (JSArray (elems (arrays h a)) True))"
    have h1: "newArray h (JSArray (elems (arrays h a)) True) = (lim h, h1)"
      by (simp add: h1_def newArray_def)
    from Cons.prems(1) Some h1 obtain h2 where
      set: "setProperty h1 fd role (lim h) = Inr h2" and
      rest: "defineLoop h2 d fd rest = Inr h'"
      by (auto split: sum.splits)
    have obj1: "objects h1 fd = objects h fd" and lim1: "lim h1 = Suc (lim h)"
      by (simp_all add: h1_def newArray_def)
    from Cons.prems(3) have "refsWithin L (Suc (lim h)) (objects h fd)"
      by (rule refsWithin_mono) simp
    with obj1 have "refsWithin L (Suc (lim h)) (objects h1 fd)" by simp
    then have "refsWithin L (Suc (lim h)) (objects h2 fd)"
      using setProperty_fresh[OF set _ Cons.prems(2)] by simp
    moreover have "lim h2 = Suc (lim h)"
      using setProperty_frame(2)[OF set] lim1 by simp
    ultimately show ?thesis
      using Cons.IH[OF rest] Cons.prems(2) by simp
  qed
qed

lemma defineRoles_fresh:
  assumes "defineRoles h d = Inr (fd, h1)"
  shows "fd = lim h" and "refsWithin (lim h) (lim h1) (objects h1 fd)"
proof -
  define h0 where "h0 = snd (newObject h (JSObject [] ObjectPrototype False))"
  have h0: "newObject h (JSObject [] ObjectPrototype False) = (lim h, h0)"
    by (simp add: h0_def newObject_def)
  from assms h0 obtain h' where
    loop: "defineLoop h0 d (lim h) (objectKeys h0 d) = Inr h'" and
    fd: "fd = lim h" and h1: "h1 = freezeObject h' (lim h)"
    by (auto simp: defineRoles_def split: sum.splits)
  show "fd = lim h" by (rule fd)
  have "lim h \<le> lim h0" "refsWithin (lim h) (lim h0) (objects h0 (lim h))"
    by (simp_all add: h0_def newObject_def refsWithin_def)
  then have "refsWithin (lim h) (lim h') (objects h' (lim h))"
    using defineLoop_fresh[OF loop] by simp
  then show "refsWithin (lim h) (lim h1) (objects h1 fd)"
    by (simp add: fd h1 freezeObject_def refsWithin_def)
qed

lemma defineLoop_lim:
  assumes "defineLoop h d fd ks = Inr h'"
  shows "lim h \<le> lim h'"
  using assms
proof (induction ks arbitrary: h)
  case Nil
  then show ?case by simp
next
  case (Cons role rest)
  show ?case
  proof (cases "readOwn (objects h d) role")
    case None
    with Cons show ?thesis by simp
  next
    case (Some a)
    define h1 where "h1 = snd (newArray h (JSArray (elems (arrays h a)) True))"
    have h1: "newArray h (JSArray (elems (arrays h a)) True) = (lim h, h1)"
      by (simp add: h1_def newArray_def)
    from Cons.prems(1) Some h1 obtain h2 where
      set: "setProperty h1 fd role (lim h) = Inr h2" and
      rest: "defineLoop h2 d fd rest = Inr h'"
      by (auto split: sum.splits)
    have "lim h2 = Suc (lim h)"
      using setProperty_frame(2)[OF set] by (simp add: h1_def newArray_def)
    with Cons.IH[OF rest] show ?thesis by simp
  qed
qed

lemma defineRoles_lim:
  assumes "defineRoles h d = Inr (fd, h1)"
  shows "fd < lim h1"
proof -
  define h0 where "h0 = snd (newObject h (JSObject [] ObjectPrototype False))"
  have h0: "newObject h (JSObject [] ObjectPrototype False) = (lim h, h0)"
    by (simp add: h0_def newObject_def)
  from assms h0 obtain h' where
    loop: "defineLoop h0 d (lim h) (objectKeys h0 d) = Inr h'" and
    fd: "fd = lim h" and h1: "h1 = freezeObject h' (lim h)"
    by (auto simp: defineRoles_def split: sum.splits)
  have "lim h0 = Suc (lim h)" by (simp add: h0_def newObject_def)
  with defineLoop_lim[OF loop] fd h1 show ?thesis
    by (simp add: freezeObject_def)
qed

text \<open>A property read depends on the object and on the arrays it refers to, only.\<close>

lemma getProperty_frame:
  assumes "objects h2 fd = objects h1 fd" and "refsWithin L U (objects h1 fd)"
    and "\<And>a. L \<le> a \<Longrightarrow> a < U \<Longrightarrow> arrays h2 a = arrays h1 a"
  shows "getProperty h2 fd k = getProperty h1 fd k"
proof (cases "map_of (props (objects h1 fd)) k")
  case None
  show ?thesis
  proof (cases "proto (objects h1 fd)")
    case ObjectPrototype
    with None assms(1) show ?thesis
      by (simp add: getProperty_def objectPrototypeGet_def)
  next
    case (ArrayInstance a)
    with assms(2) have "L \<le> a" "a < U" by (simp_all add: refsWithin_def)
    then have "arrays h2 a = arrays h1 a" by (rule assms(3))
    with None ArrayInstance assms(1) show ?thesis
      by (simp add: getProperty_def arrayInstanceGet_def objectPrototypeGet_def Let_def
          split: option.splits)
  qed
next
  case (Some v)
  show ?thesis
  proof (cases v)
    case None
    with Some assms(1) show ?thesis by (simp add: getProperty_def)
  next
    case (Some a)
    with \<open>map_of (props (objects h1 fd)) k = Some v\<close>
    have "(k, Some a) \<in> set (props (objects h1 fd))"
      by (simp add: map_of_SomeD)
    with assms(2) have "L \<le> a" "a < U" by (auto simp: refsWithin_def)
    then have "arrays h2 a = arrays h1 a" by (rule assms(3))
    with Some \<open>map_of (props (objects h1 fd)) k = Some v\<close> assms(1) show ?thesis
      by (simp add: getProperty_def)
  qed
qed

text \<open>
  Claim C8: \<open>defineRoles\<close> takes a defensive copy. Let \<open>defineRoles\<close> return a registry
  in the store \<open>h1\<close>, and let \<open>h2\<close> be any later store: everything that existed before
  the call (every address below \<open>lim h\<close>: the caller's arrays and the mapping itself)
  may have been changed at will, and new objects may have been allocated (from
  \<open>lim h1\<close> on), while what the call allocated is as the call left it. Then the three
  methods of the registry answer in \<open>h2\<close> as in \<open>h1\<close>, for every role name.
\<close>

theorem defineRoles_defensive_copy:
  assumes "defineRoles h definitions = Inr (fd, h1)"
    and "\<forall>a. lim h \<le> a \<and> a < lim h1 \<longrightarrow>
           arrays h2 a = arrays h1 a \<and> objects h2 a = objects h1 a"
  shows "registry h2 fd = registry h1 fd"
proof -
  from assms(1) have fd: "fd = lim h"
    and fresh: "refsWithin (lim h) (lim h1) (objects h1 fd)"
    by (rule defineRoles_fresh)+
  from assms(1) have "fd < lim h1" by (rule defineRoles_lim)
  with assms(2) fd have obj: "objects h2 fd = objects h1 fd" by simp
  have "getProperty h2 fd k = getProperty h1 fd k" for k
    using getProperty_frame[OF obj fresh] assms(2) by simp
  then have "getProperty h2 fd = getProperty h1 fd" by (rule ext)
  with obj show ?thesis
    by (simp add: registry_def hasOwnProperty_def objectKeys_def)
qed

lemma adminHeap_eval:
  "case defineRoles adminHeap 1 of
     Inl e \<Rightarrow> False
   | Inr (fd, h1) \<Rightarrow>
       getPermissions (registry (tamper h1) fd) (lit ''admin'') = ArrayVal [lit ''*''] \<and>
       getRoleNames (registry (tamper h1) fd) = [lit ''admin'']"
  by code_simp

lemma adminHeap_cells:
  "lim adminHeap = 2"
  "objects adminHeap 1 = JSObject [(lit ''admin'', Some 0)] ObjectPrototype False"
  "objects adminHeap (Suc 0) = JSObject [(lit ''admin'', Some 0)] ObjectPrototype False"
  "arrays adminHeap 0 = JSArray [lit ''*''] False"
  by (simp_all add: adminHeap_def emptyHeap_def newArray_def newObject_def)

theorem defineRoles_defensive_copy_witness:
  "\<exists>fd h1. defineRoles adminHeap 1 = Inr (fd, h1) \<and>
     registry (tamper h1) fd = registry h1 fd \<and>
     getPermissions (registry (tamper h1) fd) (lit ''admin'') = ArrayVal [lit ''*''] \<and>
     getRoleNames (registry (tamper h1) fd) = [lit ''admin''] \<and>
     elems (arrays (tamper h1) 0) = [lit ''guest.read'']"
proof -
  from adminHeap_eval obtain fd h1 where
    d: "defineRoles adminHeap 1 = Inr (fd, h1)" and
    g: "getPermissions (registry (tamper h1) fd) (lit ''admin'') = ArrayVal [lit ''*'']"
       "getRoleNames (registry (tamper h1) fd) = [lit ''admin'']"
    by (auto split: sum.splits)
  have "\<forall>a. lim adminHeap \<le> a \<and> a < lim h1 \<longrightarrow>
          arrays (tamper h1) a = arrays h1 a \<and> objects (tamper h1) a = objects h1 a"
    by (simp add: adminHeap_cells tamper_def)
  with d have "registry (tamper h1) fd = registry h1 fd"
    by (rule defineRoles_defensive_copy)
  with d g show ?thesis
    by (auto simp: tamper_def)
qed

subsection \<open>The registry of an ordinary mapping\<close>

lemma setProperty_ordinary:
  assumes "k \<notin> set (map fst (props (objects h fd)))"
    and "proto (objects h fd) = ObjectPrototype"
    and "\<not> objectFrozen (objects h fd)"
    and "k \<noteq> lit ''__proto__''"
  shows "setProperty h fd k v =
    Inr (writeObject h fd (JSObject (props (objects h fd) @ [(k, Some v)]) ObjectPrototype False))"
  using assms by (simp add: setProperty_def inheritsReadOnly_def Let_def)

lemma map_of_append_fresh:
  assumes "k \<notin> set (map fst ps)"
  shows "map_of (ps @ [(k, v)]) k = Some v"
    and "k' \<noteq> k \<Longrightarrow> map_of (ps @ [(k, v)]) k' = map_of ps k'"
  using assms by (induction ps) auto

lemma defineLoop_ordinary:
  assumes "distinct ks"
    and "set ks \<inter> set (map fst (props (objects h fd))) = {}"
    and "proto (objects h fd) = ObjectPrototype"
    and "\<not> objectFrozen (objects h fd)"
    and "d \<noteq> fd"
    and "\<forall>k\<in>set ks. readOwn (objects h d) k \<noteq> None \<longrightarrow> k \<noteq> lit ''__proto__''"
  shows "\<exists>h'. defineLoop h d fd ks = Inr h' \<and>
          proto (objects h' fd) = ObjectPrototype \<and>
          objects h' d = objects h d \<and>
          (\<forall>a<lim h. arrays h' a = arrays h a) \<and>
          lim h \<le> lim h' \<and>
          map fst (props (objects h' fd)) =
            map fst (props (objects h fd)) @ [k\<leftarrow>ks. readOwn (objects h d) k \<noteq> None] \<and>
          (\<forall>k. k \<notin> set ks \<longrightarrow>
             map_of (props (objects h' fd)) k = map_of (props (objects h fd)) k) \<and>
          (\<forall>k\<in>set ks. \<forall>a. readOwn (objects h d) k = Some a \<longrightarrow> a < lim h \<longrightarrow>
             (\<exists>c. map_of (props (objects h' fd)) k = Some (Some c) \<and>
                  elems (arrays h' c) = elems (arrays h a)))"
  using assms
proof (induction ks arbitrary: h)
  case Nil
  then show ?case by simp
next
  case (Cons role rest)
  show ?case
  proof (cases "readOwn (objects h d) role")
    case None
    from Cons.prems have "\<exists>h'. defineLoop h d fd rest = Inr h' \<and>
          proto (objects h' fd) = ObjectPrototype \<and>
          objects h' d = objects h d \<and>
          (\<forall>a<lim h. arrays h' a = arrays h a) \<and>
          lim h \<le> lim h' \<and>
          map fst (props (objects h' fd)) =
            map fst (props (objects h fd)) @ [k\<leftarrow>rest. readOwn (objects h d) k \<noteq> None] \<and>
          (\<forall>k. k \<notin> set rest \<longrightarrow>
             map_of (props (objects h' fd)) k = map_of (props (objects h fd)) k) \<and>
          (\<forall>k\<in>set rest. \<forall>a. readOwn (objects h d) k = Some a \<longrightarrow> a < lim h \<longrightarrow>
             (\<exists>c. map_of (props (objects h' fd)) k = Some (Some c) \<and>
                  elems (arrays h' c) = elems (arrays h a)))"
      by (intro Cons.IH) auto
    then obtain h' where h': "defineLoop h d fd rest = Inr h'"
      "proto (objects h' fd) = ObjectPrototype"
      "objects h' d = objects h d"
      "\<forall>a<lim h. arrays h' a = arrays h a"
      "lim h \<le> lim h'"
      "map fst (props (objects h' fd)) =
         map fst (props (objects h fd)) @ [k\<leftarrow>rest. readOwn (objects h d) k \<noteq> None]"
      "\<forall>k. k \<notin> set rest \<longrightarrow>
         map_of (props (objects h' fd)) k = map_of (props (objects h fd)) k"
      "\<forall>k\<in>set rest. \<forall>a. readOwn (objects h d) k = Some a \<longrightarrow> a < lim h \<longrightarrow>
         (\<exists>c. map_of (props (objects h' fd)) k = Some (Some c) \<and>
              elems (arrays h' c) = elems (arrays h a))"
      by blast
    from None h'(1) have "defineLoop h d fd (role # rest) = Inr h'" by simp
    moreover from None h'(6) have "map fst (props (objects h' fd)) =
        map fst (props (objects h fd)) @ [k\<leftarrow>role # rest. readOwn (objects h d) k \<noteq> None]"
      by simp
    moreover from h'(7) have "\<forall>k. k \<notin> set (role # rest) \<longrightarrow>
        map_of (props (objects h' fd)) k = map_of (props (objects h fd)) k"
      by simp
    moreover from None h'(8) have
      "\<forall>k\<in>set (role # rest). \<forall>a. readOwn (objects h d) k = Some a \<longrightarrow> a < lim h \<longrightarrow>
         (\<exists>c. map_of (props (objects h' fd)) k = Some (Some c) \<and>
              elems (arrays h' c) = elems (arrays h a))"
      by simp
    ultimately show ?thesis
      using h'(2,3,4,5) by blast
  next
    case (Some a)
    define h1 where "h1 = snd (newArray h (JSArray (elems (arrays h a)) True))"
    have new: "newArray h (JSArray (elems (arrays h a)) True) = (lim h, h1)"
      by (simp add: h1_def newArray_def)
    have h1: "objects h1 = objects h" "lim h1 = Suc (lim h)"
      "arrays h1 = (arrays h)(lim h := JSArray (elems (arrays h a)) True)"
      by (simp_all add: h1_def newArray_def)
    define h2 where "h2 = writeObject h1 fd
      (JSObject (props (objects h fd) @ [(role, Some (lim h))]) ObjectPrototype False)"
    from Cons.prems Some have fresh: "role \<notin> set (map fst (props (objects h fd)))"
      and np: "role \<noteq> lit ''__proto__''"
      by auto
    with Cons.prems(3,4) h1(1) have set: "setProperty h1 fd role (lim h) = Inr h2"
      unfolding h2_def by (simp add: setProperty_ordinary)
    have h2: "objects h2 d = objects h d" "lim h2 = Suc (lim h)" "arrays h2 = arrays h1"
      "objects h2 fd = JSObject (props (objects h fd) @ [(role, Some (lim h))]) ObjectPrototype False"
      using Cons.prems(5) by (simp_all add: h2_def writeObject_def h1)
    from Some new set have step:
      "defineLoop h d fd (role # rest) = defineLoop h2 d fd rest"
      by simp
    from Cons.prems fresh h2 have "\<exists>h'. defineLoop h2 d fd rest = Inr h' \<and>
          proto (objects h' fd) = ObjectPrototype \<and>
          objects h' d = objects h2 d \<and>
          (\<forall>a<lim h2. arrays h' a = arrays h2 a) \<and>
          lim h2 \<le> lim h' \<and>
          map fst (props (objects h' fd)) =
            map fst (props (objects h2 fd)) @ [k\<leftarrow>rest. readOwn (objects h2 d) k \<noteq> None] \<and>
          (\<forall>k. k \<notin> set rest \<longrightarrow>
             map_of (props (objects h' fd)) k = map_of (props (objects h2 fd)) k) \<and>
          (\<forall>k\<in>set rest. \<forall>a. readOwn (objects h2 d) k = Some a \<longrightarrow> a < lim h2 \<longrightarrow>
             (\<exists>c. map_of (props (objects h' fd)) k = Some (Some c) \<and>
                  elems (arrays h' c) = elems (arrays h2 a)))"
      by (intro Cons.IH) auto
    then obtain h' where h': "defineLoop h2 d fd rest = Inr h'"
      "proto (objects h' fd) = ObjectPrototype"
      "objects h' d = objects h2 d"
      "\<forall>a<lim h2. arrays h' a = arrays h2 a"
      "lim h2 \<le> lim h'"
      "map fst (props (objects h' fd)) =
         map fst (props (objects h2 fd)) @ [k\<leftarrow>rest. readOwn (objects h2 d) k \<noteq> None]"
      "\<forall>k. k \<notin> set rest \<longrightarrow>
         map_of (props (objects h' fd)) k = map_of (props (objects h2 fd)) k"
      "\<forall>k\<in>set rest. \<forall>a. readOwn (objects h2 d) k = Some a \<longrightarrow> a < lim h2 \<longrightarrow>
         (\<exists>c. map_of (props (objects h' fd)) k = Some (Some c) \<and>
              elems (arrays h' c) = elems (arrays h2 a))"
      by blast
    have c1: "defineLoop h d fd (role # rest) = Inr h'"
      using step h'(1) by simp
    have c3: "objects h' d = objects h d"
      using h'(3) h2(1) by simp
    have below: "arrays h2 b = arrays h b" if "b < lim h" for b
      using that by (simp add: h2(3) h1(3))
    have c4: "\<forall>b<lim h. arrays h' b = arrays h b"
      using h'(4) below by (simp add: h2(2))
    have c5: "lim h \<le> lim h'"
      using h'(5) h2(2) by simp
    have c6: "map fst (props (objects h' fd)) =
        map fst (props (objects h fd)) @ [k\<leftarrow>role # rest. readOwn (objects h d) k \<noteq> None]"
      using h'(6) Some by (simp add: h2(1,4))
    have c7: "\<forall>k. k \<notin> set (role # rest) \<longrightarrow>
        map_of (props (objects h' fd)) k = map_of (props (objects h fd)) k"
      using h'(7) map_of_append_fresh(2)[OF fresh] by (simp add: h2(4))
    have c8: "\<exists>c. map_of (props (objects h' fd)) k = Some (Some c) \<and>
                elems (arrays h' c) = elems (arrays h b)"
      if k: "k \<in> set (role # rest)" and b: "readOwn (objects h d) k = Some b" "b < lim h" for k b
    proof (cases "k = role")
      case True
      with Cons.prems(1) have "role \<notin> set rest" by simp
      with h'(7) have "map_of (props (objects h' fd)) role = Some (Some (lim h))"
        using map_of_append_fresh(1)[OF fresh] by (simp add: h2(4))
      moreover have "elems (arrays h' (lim h)) = elems (arrays h a)"
        using h'(4) by (simp add: h2(2,3) h1(3))
      ultimately show ?thesis
        using True b Some by simp
    next
      case False
      with k have mem: "k \<in> set rest" by simp
      from b have rd: "readOwn (objects h2 d) k = Some b" and lt: "b < lim h2"
        by (simp_all add: h2(1,2))
      from h'(8)[rule_format, OF mem rd lt]
      obtain c where "map_of (props (objects h' fd)) k = Some (Some c)"
        "elems (arrays h' c) = elems (arrays h2 b)"
        by blast
      with below[OF b(2)] show ?thesis by simp
    qed
    from c1 h'(2) c3 c4 c5 c6 c7 c8 show ?thesis by blast
  qed
qed

text \<open>
  The ordinary call: the mapping and its arrays are allocated, the object has every key
  once, and \<^verbatim>\<open>__proto__\<close> is not a key with a defined value. Then \<open>defineRoles\<close>
  returns; the role names are the keys with a defined value, in order; \<^verbatim>\<open>hasRole\<close> is
  true exactly of them; \<^verbatim>\<open>getPermissions\<close> returns for each of them the contents that
  the caller's array had at the call, and for every other name the empty array, unless
  the name is a property of \<^verbatim>\<open>Object.prototype\<close>.
\<close>

lemma defineRoles_ordinary:
  assumes "d < lim h"
    and "\<forall>k a. readOwn (objects h d) k = Some a \<longrightarrow> a < lim h"
    and "distinct (objectKeys h d)"
    and "readOwn (objects h d) (lit ''__proto__'') = None"
  shows "\<exists>fd h1. defineRoles h d = Inr (fd, h1) \<and>
     getRoleNames (registry h1 fd) = [k\<leftarrow>objectKeys h d. readOwn (objects h d) k \<noteq> None] \<and>
     (\<forall>r. hasRole (registry h1 fd) r \<longleftrightarrow> readOwn (objects h d) r \<noteq> None) \<and>
     (\<forall>r a. readOwn (objects h d) r = Some a \<longrightarrow>
        getPermissions (registry h1 fd) r = ArrayVal (elems (arrays h a))) \<and>
     (\<forall>r. readOwn (objects h d) r = None \<longrightarrow>
        getPermissions (registry h1 fd) r =
          (if r = lit ''__proto__'' then ObjectVal
           else if r \<in> set objectPrototypeKeys then FunctionVal
           else ArrayVal []))"
proof -
  define D where "D = objects h d"
  define h0 where "h0 = snd (newObject h (JSObject [] ObjectPrototype False))"
  have new: "newObject h (JSObject [] ObjectPrototype False) = (lim h, h0)"
    by (simp add: h0_def newObject_def)
  have h0: "objects h0 d = D" "objects h0 (lim h) = JSObject [] ObjectPrototype False"
    "arrays h0 = arrays h" "lim h0 = Suc (lim h)" "objectKeys h0 d = objectKeys h d"
    using assms(1) by (simp_all add: h0_def newObject_def D_def objectKeys_def)
  have defined_key: "readOwn D r \<noteq> None \<Longrightarrow> r \<in> set (objectKeys h d)" for r
    by (auto simp: readOwn_def objectKeys_def D_def split: option.splits dest: map_of_SomeD
        intro: rev_image_eqI)
  have "\<exists>h'. defineLoop h0 d (lim h) (objectKeys h d) = Inr h' \<and>
          proto (objects h' (lim h)) = ObjectPrototype \<and>
          objects h' d = objects h0 d \<and>
          (\<forall>a<lim h0. arrays h' a = arrays h0 a) \<and>
          lim h0 \<le> lim h' \<and>
          map fst (props (objects h' (lim h))) =
            map fst (props (objects h0 (lim h))) @
              [k\<leftarrow>objectKeys h d. readOwn (objects h0 d) k \<noteq> None] \<and>
          (\<forall>k. k \<notin> set (objectKeys h d) \<longrightarrow>
             map_of (props (objects h' (lim h))) k = map_of (props (objects h0 (lim h))) k) \<and>
          (\<forall>k\<in>set (objectKeys h d). \<forall>a. readOwn (objects h0 d) k = Some a \<longrightarrow> a < lim h0 \<longrightarrow>
             (\<exists>c. map_of (props (objects h' (lim h))) k = Some (Some c) \<and>
                  elems (arrays h' c) = elems (arrays h0 a)))"
    using assms by (intro defineLoop_ordinary) (auto simp: h0 D_def)
  then obtain h' where h': "defineLoop h0 d (lim h) (objectKeys h d) = Inr h'"
    "proto (objects h' (lim h)) = ObjectPrototype"
    "map fst (props (objects h' (lim h))) = [k\<leftarrow>objectKeys h d. readOwn D k \<noteq> None]"
    "\<forall>k. k \<notin> set (objectKeys h d) \<longrightarrow> map_of (props (objects h' (lim h))) k = None"
    "\<forall>k\<in>set (objectKeys h d). \<forall>a. readOwn D k = Some a \<longrightarrow> a < Suc (lim h) \<longrightarrow>
       (\<exists>c. map_of (props (objects h' (lim h))) k = Some (Some c) \<and>
            elems (arrays h' c) = elems (arrays h a))"
    by (auto simp: h0)
  define h1 where "h1 = freezeObject h' (lim h)"
  have h1: "props (objects h1 (lim h)) = props (objects h' (lim h))"
    "proto (objects h1 (lim h)) = ObjectPrototype" "arrays h1 = arrays h'"
    using h'(2) by (simp_all add: h1_def freezeObject_def)
  have res: "defineRoles h d = Inr (lim h, h1)"
    using new h'(1) by (simp add: defineRoles_def h0(5) h1_def)
  have names: "getRoleNames (registry h1 (lim h)) = [k\<leftarrow>objectKeys h d. readOwn D k \<noteq> None]"
    using h'(3) by (simp add: registry_def objectKeys_def h1)
  have has: "hasRole (registry h1 (lim h)) r \<longleftrightarrow> readOwn D r \<noteq> None" for r
    using h'(3) defined_key[of r] by (auto simp: registry_def hasOwnProperty_def h1)
  have own: "getPermissions (registry h1 (lim h)) r = ArrayVal (elems (arrays h a))"
    if "readOwn D r = Some a" for r a
  proof -
    from that have mem: "r \<in> set (objectKeys h d)" using defined_key[of r] by simp
    from that assms(2) have lt: "a < Suc (lim h)" by (auto simp: D_def less_Suc_eq)
    from h'(5)[rule_format, OF mem that lt]
    obtain c where "map_of (props (objects h' (lim h))) r = Some (Some c)"
      "elems (arrays h' c) = elems (arrays h a)"
      by blast
    then show ?thesis
      by (simp add: registry_def getProperty_def h1)
  qed
  have other: "getPermissions (registry h1 (lim h)) r =
      (if r = lit ''__proto__'' then ObjectVal
       else if r \<in> set objectPrototypeKeys then FunctionVal
       else ArrayVal [])"
    if "readOwn D r = None" for r
  proof -
    have "r \<notin> set (map fst (props (objects h' (lim h))))"
      using that h'(3) by simp
    then have "map_of (props (objects h' (lim h))) r = None"
      by (simp add: map_of_eq_None_iff)
    then show ?thesis
      by (simp add: registry_def getProperty_def h1 objectPrototypeGet_def)
  qed
  from res names has own other show ?thesis
    unfolding D_def by blast
qed

lemma defineRoles_ordinary_example:
  "\<exists>fd h1. defineRoles adminHeap 1 = Inr (fd, h1) \<and>
     getRoleNames (registry h1 fd) = [lit ''admin''] \<and>
     hasRole (registry h1 fd) (lit ''admin'') \<and>
     \<not> hasRole (registry h1 fd) (lit ''guest'') \<and>
     getPermissions (registry h1 fd) (lit ''admin'') = ArrayVal [lit ''*''] \<and>
     getPermissions (registry h1 fd) (lit ''guest'') = ArrayVal []"
proof -
  have k: "lit ''admin'' \<noteq> lit ''__proto__''" "lit ''guest'' \<noteq> lit ''admin''"
    "lit ''guest'' \<noteq> lit ''__proto__''" "lit ''guest'' \<notin> set objectPrototypeKeys"
    by code_simp+
  have 1: "1 < lim adminHeap"
    by (simp add: adminHeap_cells)
  have 2: "\<forall>k a. readOwn (objects adminHeap 1) k = Some a \<longrightarrow> a < lim adminHeap"
    by (auto simp: adminHeap_cells readOwn_def split: if_splits)
  have 3: "distinct (objectKeys adminHeap 1)"
    by (simp add: adminHeap_cells objectKeys_def)
  have 4: "readOwn (objects adminHeap 1) (lit ''__proto__'') = None"
    using k(1) by (simp add: adminHeap_cells readOwn_def)
  have 5: "readOwn (objects adminHeap 1) (lit ''admin'') = Some 0"
    "readOwn (objects adminHeap 1) (lit ''guest'') = None"
    using k(2) by (simp_all add: adminHeap_cells readOwn_def)
  from defineRoles_ordinary[OF 1 2 3 4] obtain fd h1 where
    r: "defineRoles adminHeap 1 = Inr (fd, h1)"
    "getRoleNames (registry h1 fd) =
       [k\<leftarrow>objectKeys adminHeap 1. readOwn (objects adminHeap 1) k \<noteq> None]"
    "\<forall>r. hasRole (registry h1 fd) r \<longleftrightarrow> readOwn (objects adminHeap 1) r \<noteq> None"
    "\<forall>r a. readOwn (objects adminHeap 1) r = Some a \<longrightarrow>
        getPermissions (registry h1 fd) r = ArrayVal (elems (arrays adminHeap a))"
    "\<forall>r. readOwn (objects adminHeap 1) r = None \<longrightarrow>
        getPermissions (registry h1 fd) r =
          (if r = lit ''__proto__'' then ObjectVal
           else if r \<in> set objectPrototypeKeys then FunctionVal
           else ArrayVal [])"
    by blast
  from r(2) have "getRoleNames (registry h1 fd) = [lit ''admin'']"
    by (simp add: adminHeap_cells objectKeys_def readOwn_def)
  moreover from r(3) 5 have "hasRole (registry h1 fd) (lit ''admin'')"
    "\<not> hasRole (registry h1 fd) (lit ''guest'')" by simp_all
  moreover from r(4) 5(1) have "getPermissions (registry h1 fd) (lit ''admin'') = ArrayVal [lit ''*'']"
    by (simp add: adminHeap_cells)
  moreover from r(5) 5(2) k have "getPermissions (registry h1 fd) (lit ''guest'') = ArrayVal []"
    by simp
  ultimately show ?thesis using r(1) by blast
qed

text \<open>
  Claim C2 says that a role name that is not a key of the definitions has no permissions
  and is not a role. \<^verbatim>\<open>hasRole\<close> asks \<^verbatim>\<open>hasOwnProperty\<close> and is right;
  \<^verbatim>\<open>getPermissions\<close> reads \<^verbatim>\<open>frozenDefinitions[role]\<close>, which walks the prototype chain
  of a plain object: on the empty registry the role name \<^verbatim>\<open>"constructor"\<close> yields the
  function \<^verbatim>\<open>Object\<close>, which is not \<^verbatim>\<open>undefined\<close> and is returned as it is.
\<close>

theorem getPermissions_inherited_key:
  "map_sum id
     (\<lambda>(fd, h). (getPermissions (registry h fd) (lit ''constructor''),
                 hasRole (registry h fd) (lit ''constructor''),
                 getRoleNames (registry h fd)))
     (createEmptyRegistry emptyHeap)
   = Inr (FunctionVal, False, [])"
  by code_simp

text \<open>
  Claim C3 says that the four decision functions never throw. With the empty registry
  of \<open>createEmptyRegistry\<close> and a user whose only role is named \<^verbatim>\<open>"constructor"\<close>,
  \<^verbatim>\<open>getPermissions\<close> returns a function, the \<^verbatim>\<open>for ... of\<close> of
  \<^verbatim>\<open>collectUserPermissions\<close> finds it not iterable, and \<open>canUser\<close> ends with a
  TypeError.
\<close>

theorem canUser_throws:
  "map_sum id
     (\<lambda>(fd, h). canUser (Defined (userWith (Some [lit ''constructor'']) None))
                   (lit ''user.read'') (registry h fd))
     (createEmptyRegistry emptyHeap)
   = Inr (Inl TypeError)"
  by code_simp

text \<open>
  Claim C9 says that the role names of the registry are the keys of the definitions
  whose value is defined. The definitions of \<open>protoHeap\<close> have the one own key
  \<^verbatim>\<open>"__proto__"\<close>, with an array as its value. The assignment
  \<^verbatim>\<open>frozenDefinitions["__proto__"] = ...\<close> reaches the inherited setter, which replaces the
  prototype of \<^verbatim>\<open>frozenDefinitions\<close> and creates no property: the registry has no role
  names, and \<^verbatim>\<open>hasRole("__proto__")\<close> is false.
\<close>

theorem getRoleNames_proto_key:
  "objectKeys protoHeap 1 = [lit ''__proto__''] \<and>
   readOwn (objects protoHeap 1) (lit ''__proto__'') = Some 0 \<and>
   map_sum id
     (\<lambda>(fd, h). (getRoleNames (registry h fd), hasRole (registry h fd) (lit ''__proto__'')))
     (defineRoles protoHeap 1)
   = Inr ([], False)"
  by code_simp

text \<open>
  Claim C10 says that adding roles to a user never revokes a grant. With the registry
  of \<^verbatim>\<open>{ admin: ["*"] }\<close>, the user with the role \<^verbatim>\<open>admin\<close> is granted
  \<^verbatim>\<open>"user.read"\<close>; for the user with the roles \<^verbatim>\<open>admin\<close> and \<^verbatim>\<open>constructor\<close> the same
  call ends with a TypeError.
\<close>

theorem canUser_not_monotone:
  "map_sum id
     (\<lambda>(fd, h).
        (canUser (Defined (userWith (Some [lit ''admin'']) None))
           (lit ''user.read'') (registry h fd),
         canUser (Defined (userWith (Some [lit ''admin'', lit ''constructor'']) None))
           (lit ''user.read'') (registry h fd)))
     (defineRoles adminHeap 1)
   = Inr (Inr True, Inl TypeError)"
  by code_simp

end
